theory Spec2Isabelle
  imports Complex_Main
begin

section \<open>Arrays\<close>

text \<open>
  A two-dimensional numpy array is a list of rows. Its entries are double-precision
  floats in the notebook; in \<open>array2\<close> they are real numbers, so every statement about
  \<open>array2\<close> is about the computation in exact arithmetic. The float literals 0.7 and 0.3
  are read as the rationals 7/10 and 3/10. Results that depend on a value leaving the
  finite range of the doubles are stated on the arrays of the section on doubles.
\<close>

type_synonym array2 = "real list list"

text \<open>The shape \<open>(R, C)\<close> of an array: \<open>R\<close> rows, each of \<open>C\<close> entries.\<close>

definition has_shape :: "nat \<Rightarrow> nat \<Rightarrow> 'a list list \<Rightarrow> bool" where
  "has_shape R C u = (length u = R \<and> list_all (\<lambda>row. length row = C) u)"

text \<open>
  \<open>np.roll(a, shift)\<close> on one axis: the entry at index \<open>i\<close> moves to index
  \<open>(i + shift) mod n\<close>; entries pushed over the end come back at the front. The result is
  a new array.
\<close>

definition roll :: "int \<Rightarrow> 'a list \<Rightarrow> 'a list" where
  "roll shift xs = rotate (nat ((- shift) mod int (length xs))) xs"

text \<open>\<open>np.roll(u, shift, axis=0)\<close> moves whole rows, \<open>np.roll(u, shift, axis=1)\<close> moves
  the entries inside every row.\<close>

definition roll_axis0 :: "int \<Rightarrow> 'a list list \<Rightarrow> 'a list list" where
  "roll_axis0 shift u = roll shift u"

definition roll_axis1 :: "int \<Rightarrow> 'a list list \<Rightarrow> 'a list list" where
  "roll_axis1 shift u = map (roll shift) u"

text \<open>
  Elementwise arithmetic of numpy. The two operands of \<open>+\<close> and \<open>-\<close> have the same shape
  at every use in the notebook (both come from the same field), so no broadcasting
  between arrays takes place; a scalar operand is broadcast to every entry.
\<close>

definition arr_map :: "(real \<Rightarrow> real) \<Rightarrow> array2 \<Rightarrow> array2" where
  "arr_map f a = map (map f) a"

definition arr_map2 :: "(real \<Rightarrow> real \<Rightarrow> real) \<Rightarrow> array2 \<Rightarrow> array2 \<Rightarrow> array2" where
  "arr_map2 f a b = map2 (map2 f) a b"

definition arr_add :: "array2 \<Rightarrow> array2 \<Rightarrow> array2" where
  "arr_add a b = arr_map2 (+) a b"

definition arr_sub :: "array2 \<Rightarrow> array2 \<Rightarrow> array2" where
  "arr_sub a b = arr_map2 (-) a b"

definition arr_scale :: "real \<Rightarrow> array2 \<Rightarrow> array2" where
  "arr_scale c a = arr_map (\<lambda>x. c * x) a"

definition arr_div :: "array2 \<Rightarrow> real \<Rightarrow> array2" where
  "arr_div a d = arr_map (\<lambda>x. x / d) a"

definition arr_pow :: "array2 \<Rightarrow> nat \<Rightarrow> array2" where
  "arr_pow a n = arr_map (\<lambda>x. x ^ n) a"

text \<open>\<open>np.sum(a)\<close>: the sum of all entries.\<close>

definition arr_sum :: "array2 \<Rightarrow> real" where
  "arr_sum a = sum_list (map sum_list a)"

text \<open>
  Reading a cell with periodic indices: any integer index is taken modulo the size of its
  axis, so index \<open>-1\<close> is the last one and index \<open>N\<close> is the first.
\<close>

definition wrap :: "int \<Rightarrow> nat \<Rightarrow> nat" where
  "wrap k n = nat (k mod int n)"


section \<open>The Laplacian\<close>

text \<open>
  \<^verbatim>\<open>
  def laplacian(u, h):
      return (np.roll(u, 1, axis=0) + np.roll(u, -1, axis=0) +
              np.roll(u, 1, axis=1) + np.roll(u, -1, axis=1) - 4*u) / h**2
  \<close>
\<close>

definition laplacian :: "array2 \<Rightarrow> real \<Rightarrow> array2" where
  "laplacian u h =
     arr_div
       (arr_sub
          (arr_add
             (arr_add
                (arr_add (roll_axis0 1 u) (roll_axis0 (- 1) u))
                (roll_axis1 1 u))
             (roll_axis1 (- 1) u))
          (arr_scale 4 u))
       (h ^ 2)"

text \<open>
  Periodic translation of a field by \<open>(dx, dy)\<close>: rows move by \<open>dx\<close>, columns by \<open>dy\<close>,
  both with wraparound (\<open>np.roll(u, (dx, dy), axis=(0, 1))\<close>).
\<close>

definition translate :: "int \<Rightarrow> int \<Rightarrow> 'a list list \<Rightarrow> 'a list list" where
  "translate dx dy u = roll_axis1 dy (roll_axis0 dx u)"

text \<open>\<open>np.mean(a)\<close>: the sum of all entries over their number.\<close>

definition arr_mean :: "array2 \<Rightarrow> real" where
  "arr_mean a = arr_sum a / real (length (concat a))"

section \<open>Parameters\<close>

datatype error =
  ValueError
  | NameError string
  | ZeroDivisionError
  | IndexError
  | OverflowError

text \<open>
  The parameter cell of the notebook, as a function of the three physical inputs it
  starts from (\<open>delta = 10\<close>, \<open>sigma = 1.0e-19\<close>, \<open>D = 1e9\<close> there):
  \<^verbatim>\<open>
  A = 3 * sigma / delta
  K = delta**2 * A
  A = A * 10
  M = D / (2 * A)
  \<close>
  Both divisions raise ZeroDivisionError on a zero divisor.
\<close>

record derived =
  A :: real
  K :: real
  M :: real

definition parameter_cell :: "real \<Rightarrow> real \<Rightarrow> real \<Rightarrow> error + derived" where
  "parameter_cell delta sigma D =
     (if delta = 0 then Inl ZeroDivisionError
      else
        let A0 = 3 * sigma / delta;
            K1 = delta ^ 2 * A0;
            A1 = A0 * 10
        in if 2 * A1 = 0 then Inl ZeroDivisionError
           else Inr \<lparr>A = A1, K = K1, M = D / (2 * A1)\<rparr>)"

text \<open>
  The settings a run reads: the derived coefficients, the time step \<open>dT = 1e-12\<close>, the mesh
  (\<open>h = 1\<close>, \<open>N = 200\<close>) and the two step settings (\<open>steps = int(1e3)\<close>,
  \<open>save_interval = steps/10\<close>, a float). They are assignments of the first cell; each is
  taken here as a setting of its own.
\<close>

record params = derived +
  dT :: real
  h :: real
  N :: nat
  steps :: int
  save_interval :: real

section \<open>One time step\<close>

text \<open>
  \<^verbatim>\<open>
  dfdphi = A * (4 * phi**3 - 6 * phi**2 + 2 * phi)
  del2phi = laplacian(phi, h)
  chemical_potential = dfdphi - 2 * K * del2phi
  RHS = M * laplacian(chemical_potential, h)
  phi = phi + dT * RHS
  \<close>
\<close>

definition dfdphi :: "real \<Rightarrow> array2 \<Rightarrow> array2" where
  "dfdphi a phi =
     arr_scale a
       (arr_add
          (arr_sub (arr_scale 4 (arr_pow phi 3)) (arr_scale 6 (arr_pow phi 2)))
          (arr_scale 2 phi))"

definition chemical_potential :: "real \<Rightarrow> real \<Rightarrow> real \<Rightarrow> array2 \<Rightarrow> array2" where
  "chemical_potential a k hh phi =
     (let del2phi = laplacian phi hh
      in arr_sub (dfdphi a phi) (arr_scale (2 * k) del2phi))"

definition step_phi :: "real \<Rightarrow> real \<Rightarrow> real \<Rightarrow> real \<Rightarrow> real \<Rightarrow> array2 \<Rightarrow> array2" where
  "step_phi a k m dt hh phi =
     (let RHS = arr_scale m (laplacian (chemical_potential a k hh phi) hh)
      in arr_add phi (arr_scale dt RHS))"

text \<open>
  \<open>np.sum\<close> of a boolean array counts its true entries:
  \<open>np.sum(phi > 0.7)\<close> and \<open>np.sum(np.logical_and(phi > 0.3, phi < 0.7))\<close>.
\<close>

definition count_true :: "(real \<Rightarrow> bool) \<Rightarrow> array2 \<Rightarrow> nat" where
  "count_true P a = sum_list (map (\<lambda>row. length (filter P row)) a)"

text \<open>The two entrywise tests: \<open>phi > 0.7\<close> and \<open>np.logical_and(phi > 0.3, phi < 0.7)\<close>.\<close>

definition above_upper :: "real \<Rightarrow> bool" where
  "above_upper x = (x > 7 / 10)"

definition between_thresholds :: "real \<Rightarrow> bool" where
  "between_thresholds x = (x > 3 / 10 \<and> x < 7 / 10)"

section \<open>The simulation loop\<close>

text \<open>A file written by the run: the plot saved inside the loop, with the step number of
  its name and title and the field it shows.\<close>

datatype snapshot = PlotFile nat array2

record state =
  phi :: array2
  t_index :: nat
  volume_fraction :: "real list"
  interfacial_area :: "real list"
  files :: "snapshot list"

text \<open>Python's \<open>x % y\<close> on floats, for \<open>y \<noteq> 0\<close>, in exact arithmetic.\<close>

definition py_mod :: "real \<Rightarrow> real \<Rightarrow> real" where
  "py_mod x y = x - y * of_int \<lfloor>x / y\<rfloor>"

text \<open>
  The body of \<open>for step in range(steps)\<close>. A store into a diagnostic array outside its
  length raises IndexError, and \<open>%\<close> by a zero \<open>save_interval\<close> raises
  ZeroDivisionError; the state reached when the exception is raised is returned with it.
  \<^verbatim>\<open>
  volume_fraction[t_index] = np.sum(phi > 0.7) / (N**2)
  interfacial_area[t_index] = np.sum(np.logical_and(phi > 0.3, phi < 0.7))
  if (step + 1) % save_interval == 0:
      ... plt.savefig(plot_filename) ...
  t_index += 1
  \<close>
\<close>

definition loop_body :: "params \<Rightarrow> nat \<Rightarrow> state \<Rightarrow> (error \<times> state) + state" where
  "loop_body p step st =
     (let st1 = st\<lparr>phi := step_phi (A p) (K p) (M p) (dT p) (h p) (phi st)\<rparr>
      in if length (volume_fraction st1) \<le> t_index st1 then Inl (IndexError, st1)
      else
        let st2 = st1\<lparr>volume_fraction := (volume_fraction st1)
                    [t_index st1 := real (count_true above_upper (phi st1)) / real ((N p) ^ 2)]\<rparr>
        in if length (interfacial_area st2) \<le> t_index st2 then Inl (IndexError, st2)
        else
          let st3 = st2\<lparr>interfacial_area := (interfacial_area st2)
                      [t_index st2 := real (count_true between_thresholds (phi st2))]\<rparr>
          in if save_interval p = 0 then Inl (ZeroDivisionError, st3)
          else
            let st4 = (if py_mod (real (step + 1)) (save_interval p) = 0
                       then st3\<lparr>files := files st3 @ [PlotFile (step + 1) (phi st3)]\<rparr>
                       else st3)
            in Inr (st4\<lparr>t_index := t_index st4 + 1\<rparr>))"

fun run_loop :: "params \<Rightarrow> nat list \<Rightarrow> state \<Rightarrow> (error \<times> state) + state" where
  "run_loop p [] st = Inr st"
| "run_loop p (step # rest) st =
     (case loop_body p step st of
        Inl e \<Rightarrow> Inl e
      | Inr st' \<Rightarrow> run_loop p rest st')"

text \<open>
  The whole cell, from a fresh kernel. \<open>np.zeros(steps)\<close> raises ValueError for a negative
  \<open>steps\<close>. After the loop the variable \<open>step\<close> holds \<open>steps - 1\<close>; when the loop body never
  ran it is unbound and reading it raises NameError. The final branch builds the file
  name of its plot from the name \<open>Beta\<close>, which no cell defines: evaluating it raises
  NameError before \<open>plt.savefig\<close> and \<open>savemat\<close> are called.
  \<^verbatim>\<open>
  if (step + 1) % save_interval != 0:
      ...
      plt.savefig(os.path.join(dir_name, f'Beta_{Beta}_Final_{steps}Steps.png'))
      plt.close()
      savemat(os.path.join(dir_name, f't_{step+1}e-12_{steps}Steps.mat'), {'phi': phi})
  \<close>
\<close>

definition initial_state :: "params \<Rightarrow> array2 \<Rightarrow> state" where
  "initial_state p phi0 =
     \<lparr>phi = phi0, t_index = 0,
      volume_fraction = replicate (nat (steps p)) 0,
      interfacial_area = replicate (nat (steps p)) 0,
      files = []\<rparr>"

definition run :: "params \<Rightarrow> array2 \<Rightarrow> (error \<times> state) + state" where
  "run p phi0 =
     (if steps p < 0 then Inl (ValueError, initial_state p phi0)
      else
        case run_loop p [0 ..< nat (steps p)] (initial_state p phi0) of
          Inl e \<Rightarrow> Inl e
        | Inr st \<Rightarrow>
            if steps p = 0 then Inl (NameError ''step'', st)
            else if py_mod (real_of_int (steps p)) (save_interval p) \<noteq> 0
              then Inl (NameError ''Beta'', st)
            else Inr st)"

text \<open>The state a loop body leaves behind, whether it finishes or raises.\<close>

definition outcome_state :: "(error \<times> state) + state \<Rightarrow> state" where
  "outcome_state r = (case r of Inl (e, st) \<Rightarrow> st | Inr st \<Rightarrow> st)"

text \<open>The step number a written file belongs to.\<close>

fun snapshot_step :: "snapshot \<Rightarrow> nat" where
  "snapshot_step (PlotFile s f) = s"

section \<open>Sample inputs\<close>

text \<open>A \<open>3 \<times> 3\<close> field and a parameter set on which the theorems below are instantiated.\<close>

definition sample_field :: array2 where
  "sample_field = [[1, 2, 3], [4, 5, 6], [7, 8, 10]]"

definition sample_params :: params where
  "sample_params =
     \<lparr>A = 1, K = 2, M = 3, dT = 1 / 2, h = 1, N = 3, steps = 5, save_interval = 2\<rparr>"

section \<open>Doubles\<close>

text \<open>
  The arithmetic of the notebook is IEEE double precision. The definitions of this
  section repeat the Laplacian and the loop body over doubles: a double is a finite
  number \<open>m 2^e\<close> with \<open>\<bar>m\<bar> < 2^53\<close> and \<open>-1074 \<le> e \<le> 971\<close>, plus or minus infinity, or
  nan. Every operation rounds its exact result to the nearest double, ties to the even
  mantissa; a rounded result of magnitude \<open>2^1024\<close> is an infinity. The two zeros of the
  format are one value here.
\<close>

text \<open>Round half to even, to an integer.\<close>

definition rne :: "real \<Rightarrow> int" where
  "rne q =
     (let f = \<lfloor>q\<rfloor>; d = q - of_int f
      in if d < 1 / 2 then f
         else if 1 / 2 < d then f + 1
         else if even f then f else f + 1)"

text \<open>
  The exponent of the last mantissa bit of the doubles around a magnitude \<open>a\<close>: the
  largest \<open>e\<close> from \<open>-1074\<close> to \<open>971\<close> with \<open>2^(e + 52) \<le> a\<close>, and \<open>-1074\<close>, the spacing of
  the subnormal doubles, when there is none.
\<close>

primrec expo_search :: "nat \<Rightarrow> real \<Rightarrow> int" where
  "expo_search 0 a = - 1074"
| "expo_search (Suc n) a =
     (if 2 powi (int (Suc n) - 1074 + 52) \<le> a then int (Suc n) - 1074
      else expo_search n a)"

definition f64_exponent :: "real \<Rightarrow> int" where
  "f64_exponent a = expo_search 2045 a"

text \<open>Round to nearest, ties to even, on the grid of spacing \<open>2^e\<close>.\<close>

definition round_f64 :: "real \<Rightarrow> real" where
  "round_f64 x =
     (let e = f64_exponent \<bar>x\<bar>
      in of_int (rne (x / 2 powi e)) * 2 powi e)"

datatype f64 = Fin real | PInf | NInf | NaN

text \<open>The double that an exact result becomes.\<close>

definition rnd :: "real \<Rightarrow> f64" where
  "rnd x =
     (let r = round_f64 x
      in if 2 ^ 1024 \<le> r then PInf
         else if r \<le> - (2 ^ 1024) then NInf
         else Fin r)"

text \<open>The finite doubles among the reals.\<close>

definition is_double :: "real \<Rightarrow> bool" where
  "is_double x = (\<bar>x\<bar> < 2 ^ 1024 \<and> round_f64 x = x)"

text \<open>
  An exact result of magnitude at least \<open>2^1024 - 2^970\<close> rounds to an infinity, and one of
  magnitude at most \<open>2^(-1075)\<close> rounds to zero.
\<close>

definition overflow_bound :: real where
  "overflow_bound = 2 ^ 1024 - 2 ^ 970"

definition underflow_bound :: real where
  "underflow_bound = 1 / 2 ^ 1075"

text \<open>
  Round half to even of \<open>j / 2\<close> and of \<open>j / 4\<close> on integers, and the integer factor of
  the double nearest to \<open>j 2^e\<close> for \<open>\<bar>j\<bar> < 2^55\<close>.
\<close>

definition half_even :: "int \<Rightarrow> int" where
  "half_even j =
     (if even j then j div 2 else if even (j div 2) then j div 2 else j div 2 + 1)"

definition quarter_even :: "int \<Rightarrow> int" where
  "quarter_even j =
     (if j mod 4 = 0 \<or> j mod 4 = 1 then j div 4
      else if j mod 4 = 3 then j div 4 + 1
      else if even (j div 4) then j div 4 else j div 4 + 1)"

definition lat :: "int \<Rightarrow> int" where
  "lat j =
     (if \<bar>j\<bar> < 2 ^ 53 then j
      else if \<bar>j\<bar> < 2 ^ 54 then 2 * half_even j
      else 4 * quarter_even j)"

fun fneg :: "f64 \<Rightarrow> f64" where
  "fneg (Fin x) = Fin (- x)"
| "fneg PInf = NInf"
| "fneg NInf = PInf"
| "fneg NaN = NaN"

fun fadd :: "f64 \<Rightarrow> f64 \<Rightarrow> f64" where
  "fadd NaN b = NaN"
| "fadd a NaN = NaN"
| "fadd PInf NInf = NaN"
| "fadd NInf PInf = NaN"
| "fadd PInf b = PInf"
| "fadd a PInf = PInf"
| "fadd NInf b = NInf"
| "fadd a NInf = NInf"
| "fadd (Fin x) (Fin y) = rnd (x + y)"

definition fsub :: "f64 \<Rightarrow> f64 \<Rightarrow> f64" where
  "fsub a b = fadd a (fneg b)"

text \<open>An infinity times a finite factor: nan for zero, else the sign of the factor.\<close>

definition inf_times :: "real \<Rightarrow> f64" where
  "inf_times y = (if y = 0 then NaN else if 0 < y then PInf else NInf)"

fun fmul :: "f64 \<Rightarrow> f64 \<Rightarrow> f64" where
  "fmul NaN b = NaN"
| "fmul a NaN = NaN"
| "fmul PInf PInf = PInf"
| "fmul PInf NInf = NInf"
| "fmul NInf PInf = NInf"
| "fmul NInf NInf = PInf"
| "fmul PInf (Fin y) = inf_times y"
| "fmul NInf (Fin y) = inf_times (- y)"
| "fmul (Fin x) PInf = inf_times x"
| "fmul (Fin x) NInf = inf_times (- x)"
| "fmul (Fin x) (Fin y) = rnd (x * y)"

text \<open>
  Division as numpy does it on arrays: a zero divisor gives an infinity, or nan for
  \<open>0 / 0\<close>, with a warning and no exception.
\<close>

fun fdiv :: "f64 \<Rightarrow> f64 \<Rightarrow> f64" where
  "fdiv NaN b = NaN"
| "fdiv a NaN = NaN"
| "fdiv PInf PInf = NaN"
| "fdiv PInf NInf = NaN"
| "fdiv NInf PInf = NaN"
| "fdiv NInf NInf = NaN"
| "fdiv PInf (Fin y) = (if 0 \<le> y then PInf else NInf)"
| "fdiv NInf (Fin y) = (if 0 \<le> y then NInf else PInf)"
| "fdiv (Fin x) PInf = Fin 0"
| "fdiv (Fin x) NInf = Fin 0"
| "fdiv (Fin x) (Fin y) =
     (if y = 0 then (if x = 0 then NaN else if 0 < x then PInf else NInf)
      else rnd (x / y))"

text \<open>\<open>a ** n\<close> of numpy on array entries, for the exponents 2 and 3 of the notebook.\<close>

fun fpow :: "f64 \<Rightarrow> nat \<Rightarrow> f64" where
  "fpow a 0 = Fin 1"
| "fpow (Fin x) n = rnd (x ^ n)"
| "fpow PInf n = PInf"
| "fpow NInf n = (if even n then PInf else NInf)"
| "fpow NaN n = NaN"

text \<open>
  \<open>x ** n\<close> on a Python float, as in \<open>h**2\<close>: a power of a finite float that rounds to an
  infinity raises OverflowError, one that rounds to zero is zero.
\<close>

fun py_pow :: "f64 \<Rightarrow> nat \<Rightarrow> error + f64" where
  "py_pow a 0 = Inr (Fin 1)"
| "py_pow (Fin x) n =
     (case rnd (x ^ n) of
        Fin y \<Rightarrow> Inr (Fin y)
      | PInf \<Rightarrow> Inl OverflowError
      | NInf \<Rightarrow> Inl OverflowError
      | NaN \<Rightarrow> Inr NaN)"
| "py_pow PInf n = Inr PInf"
| "py_pow NInf n = Inr (if even n then PInf else NInf)"
| "py_pow NaN n = Inr NaN"

text \<open>The comparisons \<open>x > t\<close> and \<open>x < t\<close> with a finite \<open>t\<close>; both are false on nan.\<close>

fun fgt :: "f64 \<Rightarrow> real \<Rightarrow> bool" where
  "fgt (Fin x) t = (t < x)"
| "fgt PInf t = True"
| "fgt NInf t = False"
| "fgt NaN t = False"

fun flt :: "f64 \<Rightarrow> real \<Rightarrow> bool" where
  "flt (Fin x) t = (x < t)"
| "flt PInf t = False"
| "flt NInf t = True"
| "flt NaN t = False"

type_synonym array_f64 = "f64 list list"

definition arr_fadd :: "array_f64 \<Rightarrow> array_f64 \<Rightarrow> array_f64" where
  "arr_fadd a b = map2 (map2 fadd) a b"

definition arr_fsub :: "array_f64 \<Rightarrow> array_f64 \<Rightarrow> array_f64" where
  "arr_fsub a b = map2 (map2 fsub) a b"

definition arr_fscale :: "f64 \<Rightarrow> array_f64 \<Rightarrow> array_f64" where
  "arr_fscale c a = map (map (fmul c)) a"

definition arr_fdiv :: "array_f64 \<Rightarrow> f64 \<Rightarrow> array_f64" where
  "arr_fdiv a d = map (map (\<lambda>x. fdiv x d)) a"

definition arr_fpow :: "array_f64 \<Rightarrow> nat \<Rightarrow> array_f64" where
  "arr_fpow a n = map (map (\<lambda>x. fpow x n)) a"

text \<open>
  \<open>laplacian(u, h)\<close> on doubles, with \<open>h\<close> a Python float. The array operations never
  raise (numpy warns and returns an infinity or nan); \<open>h**2\<close> is a power of the Python
  float \<open>h\<close> and raises OverflowError when it overflows.
\<close>

definition laplacian_f64 :: "array_f64 \<Rightarrow> f64 \<Rightarrow> error + array_f64" where
  "laplacian_f64 u hh =
     (let numerator =
        arr_fsub
          (arr_fadd
             (arr_fadd
                (arr_fadd (roll_axis0 1 u) (roll_axis0 (- 1) u))
                (roll_axis1 1 u))
             (roll_axis1 (- 1) u))
          (arr_fscale (Fin 4) u)
      in case py_pow hh 2 of
           Inl e \<Rightarrow> Inl e
         | Inr h2 \<Rightarrow> Inr (arr_fdiv numerator h2))"

text \<open>
  Lines 135 to 147 on doubles. The scalars \<open>A\<close>, \<open>K\<close>, \<open>M\<close>, \<open>dT\<close> and \<open>h\<close> are finite
  Python floats; \<open>2 * K\<close> is a product of Python floats, which overflows to an infinity
  without an exception.
\<close>

definition dfdphi_f64 :: "real \<Rightarrow> array_f64 \<Rightarrow> array_f64" where
  "dfdphi_f64 a f =
     arr_fscale (Fin a)
       (arr_fadd
          (arr_fsub (arr_fscale (Fin 4) (arr_fpow f 3)) (arr_fscale (Fin 6) (arr_fpow f 2)))
          (arr_fscale (Fin 2) f))"

definition step_phi_f64 ::
  "real \<Rightarrow> real \<Rightarrow> real \<Rightarrow> real \<Rightarrow> real \<Rightarrow> array_f64 \<Rightarrow> error + array_f64" where
  "step_phi_f64 a k m dt hh f =
     (let dfdphi = dfdphi_f64 a f
      in case laplacian_f64 f (Fin hh) of
           Inl e \<Rightarrow> Inl e
         | Inr del2phi \<Rightarrow>
             let chemical_potential =
               arr_fsub dfdphi (arr_fscale (fmul (Fin 2) (Fin k)) del2phi)
             in case laplacian_f64 chemical_potential (Fin hh) of
                  Inl e \<Rightarrow> Inl e
                | Inr lap \<Rightarrow>
                    let RHS = arr_fscale (Fin m) lap
                    in Inr (arr_fadd f (arr_fscale (Fin dt) RHS)))"

definition count_true_f64 :: "(f64 \<Rightarrow> bool) \<Rightarrow> array_f64 \<Rightarrow> nat" where
  "count_true_f64 P a = sum_list (map (\<lambda>row. length (filter P row)) a)"

text \<open>The literals \<open>0.7\<close> and \<open>0.3\<close> are the doubles nearest to 7/10 and 3/10.\<close>

definition above_upper_f64 :: "f64 \<Rightarrow> bool" where
  "above_upper_f64 x = fgt x (round_f64 (7 / 10))"

definition between_thresholds_f64 :: "f64 \<Rightarrow> bool" where
  "between_thresholds_f64 x = (fgt x (round_f64 (3 / 10)) \<and> flt x (round_f64 (7 / 10)))"

datatype snapshot_f64 = PlotFile_f64 nat array_f64

record state_f64 =
  phi64 :: array_f64
  t_index64 :: nat
  volume_fraction64 :: "f64 list"
  interfacial_area64 :: "f64 list"
  files64 :: "snapshot_f64 list"

text \<open>
  The loop body on doubles. An OverflowError of \<open>h**2\<close> is raised inside the first call
  of \<open>laplacian\<close>, before \<open>phi\<close> is assigned. \<open>np.sum(phi > 0.7) / (N**2)\<close> divides a numpy
  integer by a Python integer: a float division that does not raise.
\<close>

definition loop_body_f64 ::
  "params \<Rightarrow> nat \<Rightarrow> state_f64 \<Rightarrow> (error \<times> state_f64) + state_f64" where
  "loop_body_f64 p step st =
     (case step_phi_f64 (A p) (K p) (M p) (dT p) (h p) (phi64 st) of
        Inl e \<Rightarrow> Inl (e, st)
      | Inr f \<Rightarrow>
          let st1 = st\<lparr>phi64 := f\<rparr>
          in if length (volume_fraction64 st1) \<le> t_index64 st1 then Inl (IndexError, st1)
          else
            let st2 = st1\<lparr>volume_fraction64 := (volume_fraction64 st1)
                        [t_index64 st1 :=
                           fdiv (Fin (real (count_true_f64 above_upper_f64 (phi64 st1))))
                                (Fin (real ((N p) ^ 2)))]\<rparr>
            in if length (interfacial_area64 st2) \<le> t_index64 st2 then Inl (IndexError, st2)
            else
              let st3 = st2\<lparr>interfacial_area64 := (interfacial_area64 st2)
                          [t_index64 st2 :=
                             Fin (real (count_true_f64 between_thresholds_f64 (phi64 st2)))]\<rparr>
              in if save_interval p = 0 then Inl (ZeroDivisionError, st3)
              else
                let st4 = (if py_mod (real (step + 1)) (save_interval p) = 0
                           then st3\<lparr>files64 := files64 st3 @ [PlotFile_f64 (step + 1) (phi64 st3)]\<rparr>
                           else st3)
                in Inr (st4\<lparr>t_index64 := t_index64 st4 + 1\<rparr>))"

definition initial_state_f64 :: "params \<Rightarrow> array_f64 \<Rightarrow> state_f64" where
  "initial_state_f64 p phi0 =
     \<lparr>phi64 = phi0, t_index64 = 0,
      volume_fraction64 = replicate (nat (steps p)) (Fin 0),
      interfacial_area64 = replicate (nat (steps p)) (Fin 0),
      files64 = []\<rparr>"

text \<open>The largest power of two among the doubles, \<open>2.0 ** 1023\<close>, about \<open>8.99e307\<close>.\<close>

definition two_1023 :: real where
  "two_1023 = 2 ^ 1023"

definition overflow_params :: params where
  "overflow_params =
     \<lparr>A = 1, K = two_1023, M = 1, dT = 1, h = 1, N = 4, steps = 5, save_interval = 2\<rparr>"

section \<open>Shapes and cells of the array operations\<close>

lemma length_roll [simp]: "length (roll s xs) = length xs"
  by (simp add: roll_def)

lemma nth_roll:
  assumes "i < length xs"
  shows "roll s xs ! i = xs ! wrap (int i - s) (length xs)"
proof -
  let ?n = "length xs"
  have n: "0 < int ?n" using assms by auto
  have nn: "0 \<le> (- s) mod int ?n" using n by (rule pos_mod_sign)
  have "int ((nat ((- s) mod int ?n) + i) mod ?n) = (int i - s) mod int ?n"
    using nn by (simp add: zmod_int mod_simps)
  then have "(nat ((- s) mod int ?n) + i) mod ?n = nat ((int i - s) mod int ?n)"
    by linarith
  then show ?thesis
    using assms by (simp add: roll_def nth_rotate wrap_def)
qed

lemma wrap_less: "0 < n \<Longrightarrow> wrap k n < n"
  by (simp add: wrap_def nat_less_iff)


lemma wrap_wrap: "0 < n \<Longrightarrow> wrap (int (wrap k n) + d) n = wrap (k + d) n"
  by (simp add: wrap_def mod_simps)

lemma has_shape_nth: "has_shape R C a \<Longrightarrow> i < R \<Longrightarrow> length (a ! i) = C"
  by (simp add: has_shape_def list_all_length)

lemma has_shape_length: "has_shape R C a \<Longrightarrow> length a = R"
  by (simp add: has_shape_def)

lemma has_shapeI: "length a = R \<Longrightarrow> (\<And>i. i < R \<Longrightarrow> length (a ! i) = C) \<Longrightarrow> has_shape R C a"
  by (simp add: has_shape_def list_all_length)

lemma has_shape_arr_map: "has_shape R C a \<Longrightarrow> has_shape R C (arr_map f a)"
  by (simp add: has_shape_def arr_map_def list_all_length)

lemma has_shape_arr_map2:
  "has_shape R C a \<Longrightarrow> has_shape R C b \<Longrightarrow> has_shape R C (arr_map2 f a b)"
  by (simp add: has_shape_def arr_map2_def list_all_length)

lemma has_shape_roll_axis0: "has_shape R C a \<Longrightarrow> has_shape R C (roll_axis0 s a)"
  by (rule has_shapeI) (simp_all add: roll_axis0_def has_shape_length nth_roll has_shape_nth wrap_less)

lemma has_shape_roll_axis1: "has_shape R C a \<Longrightarrow> has_shape R C (roll_axis1 s a)"
  by (simp add: has_shape_def roll_axis1_def list_all_length)

lemma nth_arr_map:
  "has_shape R C a \<Longrightarrow> i < R \<Longrightarrow> j < C \<Longrightarrow> arr_map f a ! i ! j = f (a ! i ! j)"
  by (simp add: arr_map_def has_shape_def list_all_length)

lemma nth_arr_map2:
  "has_shape R C a \<Longrightarrow> has_shape R C b \<Longrightarrow> i < R \<Longrightarrow> j < C \<Longrightarrow>
   arr_map2 f a b ! i ! j = f (a ! i ! j) (b ! i ! j)"
  by (simp add: arr_map2_def has_shape_def list_all_length)

lemma nth_roll_axis0:
  "has_shape R C a \<Longrightarrow> i < R \<Longrightarrow> roll_axis0 s a ! i = a ! wrap (int i - s) R"
  by (simp add: roll_axis0_def has_shape_def nth_roll)

lemma nth_roll_axis1:
  "has_shape R C a \<Longrightarrow> i < R \<Longrightarrow> j < C \<Longrightarrow> roll_axis1 s a ! i ! j = a ! i ! wrap (int j - s) C"
  by (simp add: roll_axis1_def has_shape_def nth_roll list_all_length)

lemma has_shape_laplacian: "has_shape R C u \<Longrightarrow> has_shape R C (laplacian u hh)"
  unfolding laplacian_def arr_div_def arr_sub_def arr_add_def arr_scale_def
  by (intro has_shape_arr_map has_shape_arr_map2 has_shape_roll_axis0 has_shape_roll_axis1)

lemma nth_laplacian:
  assumes u: "has_shape R C u" and i: "i < R" and j: "j < C"
  shows "laplacian u hh ! i ! j =
     (u ! wrap (int i - 1) R ! j + u ! wrap (int i + 1) R ! j +
      u ! i ! wrap (int j - 1) C + u ! i ! wrap (int j + 1) C - 4 * u ! i ! j) / hh ^ 2"
proof -
  let ?a = "roll_axis0 1 u" and ?b = "roll_axis0 (- 1) u"
  let ?c = "roll_axis1 1 u" and ?d = "roll_axis1 (- 1) u"
  have sa: "has_shape R C ?a" and sb: "has_shape R C ?b"
    using u by (rule has_shape_roll_axis0)+
  have sc: "has_shape R C ?c" and sd: "has_shape R C ?d"
    using u by (rule has_shape_roll_axis1)+
  have s1: "has_shape R C (arr_map2 (+) ?a ?b)"
    using sa sb by (rule has_shape_arr_map2)
  have s2: "has_shape R C (arr_map2 (+) (arr_map2 (+) ?a ?b) ?c)"
    using s1 sc by (rule has_shape_arr_map2)
  have s3: "has_shape R C (arr_map2 (+) (arr_map2 (+) (arr_map2 (+) ?a ?b) ?c) ?d)"
    using s2 sd by (rule has_shape_arr_map2)
  have s4: "has_shape R C (arr_map (\<lambda>x. 4 * x) u)"
    using u by (rule has_shape_arr_map)
  have s5: "has_shape R C (arr_map2 (-) (arr_map2 (+) (arr_map2 (+) (arr_map2 (+) ?a ?b) ?c) ?d)
      (arr_map (\<lambda>x. 4 * x) u))"
    using s3 s4 by (rule has_shape_arr_map2)
  have va: "?a ! i ! j = u ! wrap (int i - 1) R ! j"
    using u i by (simp add: nth_roll_axis0)
  have vb: "?b ! i ! j = u ! wrap (int i + 1) R ! j"
    using u i by (simp add: nth_roll_axis0)
  have vc: "?c ! i ! j = u ! i ! wrap (int j - 1) C"
    using u i j by (simp add: nth_roll_axis1)
  have vd: "?d ! i ! j = u ! i ! wrap (int j + 1) C"
    using u i j by (simp add: nth_roll_axis1)
  show ?thesis
    unfolding laplacian_def arr_div_def arr_sub_def arr_add_def arr_scale_def
    by (simp only: nth_arr_map [OF s5 i j] nth_arr_map2 [OF s3 s4 i j]
        nth_arr_map2 [OF s2 sd i j] nth_arr_map2 [OF s1 sc i j] nth_arr_map2 [OF sa sb i j]
        nth_arr_map [OF u i j] va vb vc vd)
qed

lemma array2_eqI:
  assumes a: "has_shape R C a" and b: "has_shape R C b"
    and eq: "\<And>i j. i < R \<Longrightarrow> j < C \<Longrightarrow> a ! i ! j = b ! i ! j"
  shows "a = b"
proof (rule nth_equalityI)
  show "length a = length b"
    using a b by (simp add: has_shape_length)
next
  fix i assume "i < length a"
  then have i: "i < R" using a by (simp add: has_shape_length)
  show "a ! i = b ! i"
  proof (rule nth_equalityI)
    show "length (a ! i) = length (b ! i)"
      using a b i by (simp add: has_shape_nth)
  next
    fix j assume "j < length (a ! i)"
    then have "j < C" using a i by (simp add: has_shape_nth)
    with i show "a ! i ! j = b ! i ! j" by (rule eq)
  qed
qed

lemma sum_list_rotate: "sum_list (rotate n xs) = sum_list (xs :: real list)"
proof -
  let ?k = "n mod length xs"
  have "sum_list xs = sum_list (take ?k xs @ drop ?k xs)"
    by (simp only: append_take_drop_id)
  also have "\<dots> = sum_list (drop ?k xs @ take ?k xs)"
    by (simp only: sum_list_append add.commute)
  finally show ?thesis
    by (simp only: rotate_drop_take)
qed

lemma sum_list_roll: "sum_list (roll s xs) = sum_list (xs :: real list)"
  by (simp add: roll_def sum_list_rotate)

lemma arr_sum_roll_axis0: "arr_sum (roll_axis0 s a) = arr_sum a"
  by (simp add: arr_sum_def roll_axis0_def roll_def rotate_map [symmetric] sum_list_rotate)

lemma arr_sum_roll_axis1: "arr_sum (roll_axis1 s a) = arr_sum a"
  by (simp add: arr_sum_def roll_axis1_def o_def sum_list_roll)

lemma sum_list_map2_add:
  "length xs = length ys \<Longrightarrow> sum_list (map2 (+) xs ys) = sum_list xs + sum_list (ys :: real list)"
  by (induction xs ys rule: list_induct2) simp_all

lemma sum_list_map2_sub:
  "length xs = length ys \<Longrightarrow> sum_list (map2 (-) xs ys) = sum_list xs - sum_list (ys :: real list)"
  by (induction xs ys rule: list_induct2) simp_all

lemma arr_sum_add:
  "has_shape R C a \<Longrightarrow> has_shape R C b \<Longrightarrow> arr_sum (arr_add a b) = arr_sum a + arr_sum b"
proof (induction a arbitrary: b R)
  case Nil
  then show ?case by (simp add: arr_sum_def arr_add_def arr_map2_def has_shape_def)
next
  case (Cons r a)
  then obtain q b' where b: "b = q # b'"
    by (cases b) (auto simp: has_shape_def)
  obtain R' where R: "R = Suc R'"
    using Cons.prems(1) by (cases R) (auto simp: has_shape_def)
  have sh: "has_shape R' C a" "has_shape R' C b'" "length r = C" "length q = C"
    using Cons.prems by (auto simp: has_shape_def b R)
  have "arr_sum (arr_add a b') = arr_sum a + arr_sum b'"
    using sh(1,2) by (rule Cons.IH)
  then show ?case
    using sh(3,4) by (simp add: arr_sum_def arr_add_def arr_map2_def b sum_list_map2_add)
qed

lemma arr_sum_sub:
  "has_shape R C a \<Longrightarrow> has_shape R C b \<Longrightarrow> arr_sum (arr_sub a b) = arr_sum a - arr_sum b"
proof (induction a arbitrary: b R)
  case Nil
  then show ?case by (simp add: arr_sum_def arr_sub_def arr_map2_def has_shape_def)
next
  case (Cons r a)
  then obtain q b' where b: "b = q # b'"
    by (cases b) (auto simp: has_shape_def)
  obtain R' where R: "R = Suc R'"
    using Cons.prems(1) by (cases R) (auto simp: has_shape_def)
  have sh: "has_shape R' C a" "has_shape R' C b'" "length r = C" "length q = C"
    using Cons.prems by (auto simp: has_shape_def b R)
  have "arr_sum (arr_sub a b') = arr_sum a - arr_sum b'"
    using sh(1,2) by (rule Cons.IH)
  then show ?case
    using sh(3,4) by (simp add: arr_sum_def arr_sub_def arr_map2_def b sum_list_map2_sub)
qed

lemma arr_sum_map_linear:
  assumes row: "\<And>r. sum_list (map f r) = g (sum_list r)"
    and g0: "g 0 = 0" and gadd: "\<And>x y. g (x + y) = g x + g y"
  shows "arr_sum (arr_map f a) = g (arr_sum a)"
  by (induction a) (simp_all add: arr_sum_def arr_map_def row g0 gadd)

lemma arr_sum_scale: "arr_sum (arr_scale c a) = c * arr_sum a"
  unfolding arr_scale_def
  by (rule arr_sum_map_linear) (simp_all add: sum_list_const_mult distrib_left)

lemma arr_sum_div: "arr_sum (arr_div a d) = arr_sum a / d"
  unfolding arr_div_def
proof (rule arr_sum_map_linear)
  fix r :: "real list"
  show "sum_list (map (\<lambda>x. x / d) r) = sum_list r / d"
    by (induction r) (simp_all add: add_divide_distrib)
qed (simp_all add: add_divide_distrib)

lemma arr_sum_laplacian:
  assumes u: "has_shape R C u"
  shows "arr_sum (laplacian u hh) = 0"
proof -
  let ?a = "roll_axis0 1 u" and ?b = "roll_axis0 (- 1) u"
  let ?c = "roll_axis1 1 u" and ?d = "roll_axis1 (- 1) u"
  have sa: "has_shape R C ?a" and sb: "has_shape R C ?b"
    using u by (rule has_shape_roll_axis0)+
  have sc: "has_shape R C ?c" and sd: "has_shape R C ?d"
    using u by (rule has_shape_roll_axis1)+
  have s1: "has_shape R C (arr_add ?a ?b)"
    unfolding arr_add_def using sa sb by (rule has_shape_arr_map2)
  have s2: "has_shape R C (arr_add (arr_add ?a ?b) ?c)"
    unfolding arr_add_def using s1 [unfolded arr_add_def] sc by (rule has_shape_arr_map2)
  have s3: "has_shape R C (arr_add (arr_add (arr_add ?a ?b) ?c) ?d)"
    unfolding arr_add_def using s2 [unfolded arr_add_def] sd by (rule has_shape_arr_map2)
  have s4: "has_shape R C (arr_scale 4 u)"
    unfolding arr_scale_def using u by (rule has_shape_arr_map)
  have "arr_sum (arr_sub (arr_add (arr_add (arr_add ?a ?b) ?c) ?d) (arr_scale 4 u)) = 0"
    by (simp add: arr_sum_sub [OF s3 s4] arr_sum_add [OF s2 sd] arr_sum_add [OF s1 sc]
        arr_sum_add [OF sa sb] arr_sum_scale arr_sum_roll_axis0 arr_sum_roll_axis1)
  then show ?thesis
    by (simp add: laplacian_def arr_sum_div)
qed

lemma wrap_wrap_minus: "0 < n \<Longrightarrow> wrap (int (wrap k n) - d) n = wrap (k - d) n"
  by (simp add: wrap_def mod_simps)

lemma has_shape_arr_add: "has_shape R C a \<Longrightarrow> has_shape R C b \<Longrightarrow> has_shape R C (arr_add a b)"
  unfolding arr_add_def by (rule has_shape_arr_map2)

lemma has_shape_arr_sub: "has_shape R C a \<Longrightarrow> has_shape R C b \<Longrightarrow> has_shape R C (arr_sub a b)"
  unfolding arr_sub_def by (rule has_shape_arr_map2)

lemma has_shape_arr_scale: "has_shape R C a \<Longrightarrow> has_shape R C (arr_scale c a)"
  unfolding arr_scale_def by (rule has_shape_arr_map)

lemma has_shape_arr_pow: "has_shape R C a \<Longrightarrow> has_shape R C (arr_pow a n)"
  unfolding arr_pow_def by (rule has_shape_arr_map)





lemma has_shape_translate: "has_shape R C u \<Longrightarrow> has_shape R C (translate dx dy u)"
  unfolding translate_def by (intro has_shape_roll_axis1 has_shape_roll_axis0)

lemma nth_translate:
  assumes u: "has_shape R C u" and i: "i < R" and j: "j < C"
  shows "translate dx dy u ! i ! j = u ! wrap (int i - dx) R ! wrap (int j - dy) C"
proof -
  have "translate dx dy u ! i ! j = roll_axis0 dx u ! i ! wrap (int j - dy) C"
    unfolding translate_def using has_shape_roll_axis0 [OF u] i j by (rule nth_roll_axis1)
  then show ?thesis
    using u i by (simp add: nth_roll_axis0)
qed

lemma laplacian_translate:
  assumes u: "has_shape R C u"
  shows "laplacian (translate dx dy u) hh = translate dx dy (laplacian u hh)"
proof (rule array2_eqI [of R C])
  show "has_shape R C (laplacian (translate dx dy u) hh)"
    using u by (intro has_shape_laplacian has_shape_translate)
  show "has_shape R C (translate dx dy (laplacian u hh))"
    using u by (intro has_shape_laplacian has_shape_translate)
next
  fix i j assume i: "i < R" and j: "j < C"
  then have R: "0 < R" and C: "0 < C" by auto
  let ?T = "translate dx dy u"
  let ?i = "wrap (int i - dx) R" and ?j = "wrap (int j - dy) C"
  have T: "has_shape R C ?T" using u by (rule has_shape_translate)
  have wi: "?i < R" and wj: "?j < C"
    using R C by (simp_all add: wrap_less)
  have w: "wrap (int i - 1) R < R" "wrap (int i + 1) R < R"
    "wrap (int j - 1) C < C" "wrap (int j + 1) C < C"
    using R C by (simp_all add: wrap_less)
  have e1: "wrap (int (wrap (int i - 1) R) - dx) R = wrap (int ?i - 1) R"
    by (simp only: wrap_wrap_minus [OF R]) (simp add: algebra_simps)
  have e2: "wrap (int (wrap (int i + 1) R) - dx) R = wrap (int ?i + 1) R"
    by (simp only: wrap_wrap_minus [OF R] wrap_wrap [OF R]) (simp add: algebra_simps)
  have e3: "wrap (int (wrap (int j - 1) C) - dy) C = wrap (int ?j - 1) C"
    by (simp only: wrap_wrap_minus [OF C]) (simp add: algebra_simps)
  have e4: "wrap (int (wrap (int j + 1) C) - dy) C = wrap (int ?j + 1) C"
    by (simp only: wrap_wrap_minus [OF C] wrap_wrap [OF C]) (simp add: algebra_simps)
  have "laplacian ?T hh ! i ! j =
      (?T ! wrap (int i - 1) R ! j + ?T ! wrap (int i + 1) R ! j +
       ?T ! i ! wrap (int j - 1) C + ?T ! i ! wrap (int j + 1) C - 4 * ?T ! i ! j) / hh ^ 2"
    using T i j by (rule nth_laplacian)
  also have "\<dots> =
      (u ! wrap (int ?i - 1) R ! ?j + u ! wrap (int ?i + 1) R ! ?j +
       u ! ?i ! wrap (int ?j - 1) C + u ! ?i ! wrap (int ?j + 1) C - 4 * u ! ?i ! ?j) / hh ^ 2"
    by (simp only: nth_translate [OF u w(1) j] nth_translate [OF u w(2) j]
        nth_translate [OF u i w(3)] nth_translate [OF u i w(4)] nth_translate [OF u i j]
        e1 e2 e3 e4)
  also have "\<dots> = laplacian u hh ! ?i ! ?j"
    using u wi wj by (rule nth_laplacian [symmetric])
  also have "\<dots> = translate dx dy (laplacian u hh) ! i ! j"
    using has_shape_laplacian [OF u] i j by (rule nth_translate [symmetric])
  finally show "laplacian ?T hh ! i ! j = translate dx dy (laplacian u hh) ! i ! j" .
qed

lemma has_shape_dfdphi: "has_shape R C f \<Longrightarrow> has_shape R C (dfdphi a f)"
  unfolding dfdphi_def
  by (intro has_shape_arr_scale has_shape_arr_add has_shape_arr_sub has_shape_arr_pow)

lemma has_shape_chemical_potential:
  "has_shape R C f \<Longrightarrow> has_shape R C (chemical_potential a k hh f)"
  unfolding chemical_potential_def Let_def
  by (intro has_shape_arr_sub has_shape_dfdphi has_shape_arr_scale has_shape_laplacian)

lemma has_shape_step_phi: "has_shape R C f \<Longrightarrow> has_shape R C (step_phi a k m dt hh f)"
  unfolding step_phi_def Let_def
  by (intro has_shape_arr_add has_shape_arr_scale has_shape_laplacian
      has_shape_chemical_potential)




lemma arr_sum_step_phi:
  assumes f: "has_shape R C f"
  shows "arr_sum (step_phi a k m dt hh f) = arr_sum f"
proof -
  let ?L = "laplacian (chemical_potential a k hh f) hh"
  have L: "has_shape R C ?L"
    using f by (intro has_shape_laplacian has_shape_chemical_potential)
  have z: "arr_sum ?L = 0"
    using has_shape_chemical_potential [OF f] by (rule arr_sum_laplacian)
  show ?thesis
    unfolding step_phi_def Let_def
    by (simp add: arr_sum_add [OF f has_shape_arr_scale [OF has_shape_arr_scale [OF L]]]
        arr_sum_scale z)
qed

lemma length_concat_shape: "has_shape R C a \<Longrightarrow> length (concat a) = R * C"
  by (induction a arbitrary: R) (auto simp: has_shape_def)

lemma phi_loop_body:
  "phi (outcome_state (loop_body p step st)) =
     step_phi (A p) (K p) (M p) (dT p) (h p) (phi st)"
  by (simp add: loop_body_def outcome_state_def Let_def)



text \<open>
  C7. For every \<open>n \<times> n\<close> field, spacing \<open>hh > 0\<close> and shift \<open>(dx, dy)\<close>, the Laplacian of
  the periodically shifted field is the Laplacian of the field, shifted by the same
  \<open>(dx, dy)\<close>.
\<close>

theorem laplacian_commutes_with_translate:
  assumes "has_shape n n u" and "0 < hh"
  shows "laplacian (translate dx dy u) hh = translate dx dy (laplacian u hh)"
  using assms(1) by (rule laplacian_translate)

theorem laplacian_commutes_with_translate_witness:
  "has_shape 3 3 sample_field \<and> (0 :: real) < 2 \<and>
   translate 1 (- 1) sample_field = [[8, 10, 7], [2, 3, 1], [5, 6, 4]] \<and>
   laplacian [[8, 10, 7], [2, 3, 1], [5, 6, 4]] 2 = translate 1 (- 1) (laplacian sample_field 2)"
proof -
  have s: "has_shape 3 3 sample_field" by (simp add: has_shape_def sample_field_def)
  have p: "(0 :: real) < 2" by simp
  have t: "translate 1 (- 1) sample_field = [[8, 10, 7], [2, 3, 1], [5, 6, 4]]"
    by (simp add: translate_def roll_axis0_def roll_axis1_def roll_def sample_field_def
        rotate_def rotate1_def numeral_2_eq_2 numeral_3_eq_3)
  from laplacian_commutes_with_translate [OF s p, of 1 "- 1"]
  have "laplacian [[8, 10, 7], [2, 3, 1], [5, 6, 4]] 2 = translate 1 (- 1) (laplacian sample_field 2)"
    by (simp only: t)
  with s p t show ?thesis by (intro conjI)
qed


lemma loop_body_Inr:
  assumes "t_index st < length (volume_fraction st)"
    and "t_index st < length (interfacial_area st)"
    and "save_interval p \<noteq> 0"
  shows "loop_body p step st =
    Inr (st\<lparr>phi := step_phi (A p) (K p) (M p) (dT p) (h p) (phi st),
           t_index := t_index st + 1,
           volume_fraction := (volume_fraction st)
             [t_index st := real (count_true above_upper
                (step_phi (A p) (K p) (M p) (dT p) (h p) (phi st))) / real ((N p) ^ 2)],
           interfacial_area := (interfacial_area st)
             [t_index st := real (count_true between_thresholds
                (step_phi (A p) (K p) (M p) (dT p) (h p) (phi st)))],
           files := (if py_mod (real (step + 1)) (save_interval p) = 0
                     then files st @ [PlotFile (step + 1)
                        (step_phi (A p) (K p) (M p) (dT p) (h p) (phi st))]
                     else files st)\<rparr>)"
  using assms by (simp add: loop_body_def Let_def)



lemma sample_state_facts:
  "has_shape 3 3 (phi (initial_state sample_params sample_field))"
  "N sample_params = 3" "h sample_params = 1" "save_interval sample_params = 2"
  "steps sample_params = 5"
  "t_index (initial_state sample_params sample_field) = 0"
  "length (volume_fraction (initial_state sample_params sample_field)) = 5"
  "length (interfacial_area (initial_state sample_params sample_field)) = 5"
  by (simp_all add: initial_state_def sample_params_def sample_field_def has_shape_def)




text \<open>
  C3. One step keeps the sum of the field over all cells, and so its mean: the periodic
  Laplacian of any field sums to zero, and the step adds \<open>dT \<cdot> M\<close> times the Laplacian of
  the chemical potential.
\<close>

theorem step_conserves_sum:
  assumes "has_shape n n (phi st)" and "0 < h p"
  shows
    "arr_sum (phi (outcome_state (loop_body p step st))) = arr_sum (phi st) \<and>
     arr_mean (phi (outcome_state (loop_body p step st))) = arr_mean (phi st) \<and>
     (\<forall>g. has_shape n n g \<longrightarrow> arr_sum (laplacian g (h p)) = 0)"
proof (intro conjI allI impI)
  show s: "arr_sum (phi (outcome_state (loop_body p step st))) = arr_sum (phi st)"
    using assms(1) by (simp add: phi_loop_body arr_sum_step_phi)
  have "length (concat (phi (outcome_state (loop_body p step st)))) = length (concat (phi st))"
    using assms(1)
    by (simp add: phi_loop_body length_concat_shape [OF has_shape_step_phi] length_concat_shape)
  with s show "arr_mean (phi (outcome_state (loop_body p step st))) = arr_mean (phi st)"
    by (simp add: arr_mean_def)
next
  fix g :: array2 assume "has_shape n n g"
  then show "arr_sum (laplacian g (h p)) = 0" by (rule arr_sum_laplacian)
qed

theorem step_conserves_sum_witness:
  "has_shape 3 3 (phi (initial_state sample_params sample_field)) \<and> 0 < h sample_params \<and>
   arr_sum (phi (outcome_state (loop_body sample_params 0 (initial_state sample_params sample_field))))
     = 46 \<and>
   arr_mean (phi (outcome_state (loop_body sample_params 0 (initial_state sample_params sample_field))))
     = 46 / 9 \<and>
   arr_sum (laplacian sample_field 1) = 0"
proof -
  let ?st = "initial_state sample_params sample_field"
  have a: "has_shape 3 3 (phi ?st)" by (rule sample_state_facts)
  have b: "0 < h sample_params" by (simp add: sample_state_facts)
  have f: "has_shape 3 3 sample_field" by (simp add: sample_field_def has_shape_def)
  have v: "arr_sum (phi ?st) = 46" "arr_mean (phi ?st) = 46 / 9"
    by (simp_all add: arr_sum_def arr_mean_def initial_state_def sample_field_def)
  note t = step_conserves_sum [OF a b, of 0]
  from t v have c: "arr_sum (phi (outcome_state (loop_body sample_params 0 ?st))) = 46"
    by simp
  from t v have d: "arr_mean (phi (outcome_state (loop_body sample_params 0 ?st))) = 46 / 9"
    by simp
  from t [THEN conjunct2, THEN conjunct2, rule_format, OF f]
  have e: "arr_sum (laplacian sample_field 1) = 0"
    by (simp add: sample_state_facts)
  from a b c d e show ?thesis by (intro conjI)
qed

text \<open>
  C6. The parameter cell computes \<open>K\<close> as \<open>delta\<^sup>2\<close> times the barrier height before that
  is multiplied by 10, and \<open>M = D / (2 A)\<close> from the barrier height after it; so for the
  \<open>A\<close> that the loop uses, \<open>K = delta\<^sup>2 A / 10\<close>, which is not \<open>delta\<^sup>2 A\<close>.
\<close>

theorem parameter_cell_K_from_unscaled_A:
  assumes "delta \<noteq> 0" and "sigma \<noteq> 0"
  shows "\<exists>q. parameter_cell delta sigma D = Inr q \<and>
    K q = delta ^ 2 * (3 * sigma / delta) \<and>
    A q = (3 * sigma / delta) * 10 \<and>
    M q = D / (2 * A q) \<and>
    K q = delta ^ 2 * A q / 10 \<and>
    K q \<noteq> delta ^ 2 * A q"
  using assms by (simp add: parameter_cell_def Let_def)

theorem parameter_cell_K_from_unscaled_A_witness:
  "(10 :: real) \<noteq> 0 \<and> (1 / 10 ^ 19 :: real) \<noteq> 0 \<and>
   (\<exists>q. parameter_cell 10 (1 / 10 ^ 19) (10 ^ 9) = Inr q \<and>
      K q = 3 / 10 ^ 18 \<and> A q = 3 / 10 ^ 19 \<and> M q = 10 ^ 9 / (2 * A q) \<and>
      K q = 10 ^ 2 * A q / 10 \<and> K q \<noteq> 10 ^ 2 * A q)"
proof -
  have a: "(10 :: real) \<noteq> 0" and b: "(1 / 10 ^ 19 :: real) \<noteq> 0" by simp_all
  from parameter_cell_K_from_unscaled_A [OF a b, of "10 ^ 9"]
  obtain q where q: "parameter_cell 10 (1 / 10 ^ 19) (10 ^ 9) = Inr q"
    "K q = 10 ^ 2 * (3 * (1 / 10 ^ 19) / 10)" "A q = (3 * (1 / 10 ^ 19) / 10) * 10"
    "M q = 10 ^ 9 / (2 * A q)" "K q = 10 ^ 2 * A q / 10" "K q \<noteq> 10 ^ 2 * A q"
    by blast
  have "K q = 3 / 10 ^ 18" "A q = 3 / 10 ^ 19"
    using q(2,3) by simp_all
  with a b q show ?thesis by blast
qed

lemma py_mod_5_2: "py_mod 5 2 = 1"
proof -
  have "\<lfloor>5 / 2 :: real\<rfloor> = 2" by linarith
  then show ?thesis by (simp add: py_mod_def)
qed

lemma py_mod_upto_5:
  "filter (\<lambda>s. py_mod (real s) 2 = 0) [Suc 0..<6] = [2, 4]"
proof -
  have f: "\<lfloor>1 / 2 :: real\<rfloor> = 0" "\<lfloor>3 / 2 :: real\<rfloor> = 1" "\<lfloor>5 / 2 :: real\<rfloor> = 2"
    by linarith+
  have u: "[Suc 0..<6] = [1, 2, 3, 4, 5]"
    by code_simp
  show ?thesis
    unfolding u by (simp add: py_mod_def f)
qed

lemma run_loop_upt:
  assumes si: "save_interval p \<noteq> 0"
  shows "t_index st = k \<Longrightarrow> length (volume_fraction st) = n \<Longrightarrow>
    length (interfacial_area st) = n \<Longrightarrow> k \<le> n \<Longrightarrow>
    \<exists>st'. run_loop p [k..<n] st = Inr st' \<and> t_index st' = n \<and>
      map snapshot_step (files st') = map snapshot_step (files st) @
        filter (\<lambda>s. py_mod (real s) (save_interval p) = 0) [Suc k..<Suc n]"
proof (induction "n - k" arbitrary: k st)
  case 0
  then have "k = n" by simp
  with "0.prems" show ?case by simp
next
  case (Suc d)
  then have kn: "k < n" by simp
  let ?st1 = "st\<lparr>phi := step_phi (A p) (K p) (M p) (dT p) (h p) (phi st),
           t_index := t_index st + 1,
           volume_fraction := (volume_fraction st)
             [t_index st := real (count_true above_upper
                (step_phi (A p) (K p) (M p) (dT p) (h p) (phi st))) / real ((N p) ^ 2)],
           interfacial_area := (interfacial_area st)
             [t_index st := real (count_true between_thresholds
                (step_phi (A p) (K p) (M p) (dT p) (h p) (phi st)))],
           files := (if py_mod (real (k + 1)) (save_interval p) = 0
                     then files st @ [PlotFile (k + 1)
                        (step_phi (A p) (K p) (M p) (dT p) (h p) (phi st))]
                     else files st)\<rparr>"
  have b: "loop_body p k st = Inr ?st1"
    using Suc.prems kn si by (intro loop_body_Inr) simp_all
  have d: "d = n - Suc k" using Suc.hyps(2) by simp
  have "\<exists>st'. run_loop p [Suc k..<n] ?st1 = Inr st' \<and> t_index st' = n \<and>
      map snapshot_step (files st') = map snapshot_step (files ?st1) @
        filter (\<lambda>s. py_mod (real s) (save_interval p) = 0) [Suc (Suc k)..<Suc n]"
    using Suc.prems kn by (intro Suc.hyps(1) [OF d]) simp_all
  then obtain st' where st': "run_loop p [Suc k..<n] ?st1 = Inr st'" "t_index st' = n"
    "map snapshot_step (files st') = map snapshot_step (files ?st1) @
        filter (\<lambda>s. py_mod (real s) (save_interval p) = 0) [Suc (Suc k)..<Suc n]"
    by blast
  have u: "[k..<n] = k # [Suc k..<n]" using kn by (rule upt_conv_Cons)
  have v: "[Suc k..<Suc n] = Suc k # [Suc (Suc k)..<Suc n]"
    using kn by (simp add: upt_conv_Cons)
  have "run_loop p [k..<n] st = Inr st'"
    by (simp only: u run_loop.simps b sum.case st'(1))
  moreover have "map snapshot_step (files st') = map snapshot_step (files st) @
        filter (\<lambda>s. py_mod (real s) (save_interval p) = 0) [Suc k..<Suc n]"
    unfolding st'(3) v by simp
  ultimately show ?case using st'(2) by blast
qed

text \<open>When \<open>save_interval\<close> divides \<open>steps\<close>, the plot of the last step is written inside the
  loop and the run completes.\<close>

lemma run_with_terminal_plot:
  assumes "0 < steps p" and "save_interval p \<noteq> 0"
    and "py_mod (real_of_int (steps p)) (save_interval p) = 0"
  shows "\<exists>st. run p phi0 = Inr st \<and> t_index st = nat (steps p) \<and>
    nat (steps p) \<in> set (map snapshot_step (files st))"
proof -
  let ?n = "nat (steps p)"
  let ?st0 = "initial_state p phi0"
  have "\<exists>st'. run_loop p [0..<?n] ?st0 = Inr st' \<and> t_index st' = ?n \<and>
      map snapshot_step (files st') = map snapshot_step (files ?st0) @
        filter (\<lambda>s. py_mod (real s) (save_interval p) = 0) [Suc 0..<Suc ?n]"
    using assms(2) by (rule run_loop_upt) (simp_all add: initial_state_def)
  then obtain st where st: "run_loop p [0..<?n] ?st0 = Inr st" "t_index st = ?n"
    "map snapshot_step (files st) =
        filter (\<lambda>s. py_mod (real s) (save_interval p) = 0) [Suc 0..<Suc ?n]"
    by (auto simp: initial_state_def)
  have r: "real ?n = real_of_int (steps p)" using assms(1) by simp
  have x: "run p phi0 = Inr st"
    using assms(1,3) by (simp add: run_def st(1))
  have "py_mod (real ?n) (save_interval p) = 0"
    using assms(3) by (simp add: r)
  moreover have "Suc 0 \<le> ?n" using assms(1) by simp
  ultimately have m: "?n \<in> set (map snapshot_step (files st))"
    unfolding st(3) by auto
  from x st(2) m show ?thesis by blast
qed

text \<open>
  C4. A snapshot is to be written after every step whose number \<open>save_interval\<close> divides,
  and a terminal one after the last step of every run. The loop does the first. When
  \<open>save_interval\<close> does not divide \<open>steps\<close>, the branch after the loop raises NameError for
  the undefined name \<open>Beta\<close> before it writes anything: the files written are the plots of
  the steps that \<open>save_interval\<close> divides, and none belongs to the last step.
\<close>

theorem run_without_terminal_snapshot:
  assumes "0 < steps p" and "save_interval p \<noteq> 0"
    and "py_mod (real_of_int (steps p)) (save_interval p) \<noteq> 0"
  shows "\<exists>st. run p phi0 = Inl (NameError ''Beta'', st) \<and>
    t_index st = nat (steps p) \<and>
    map snapshot_step (files st) =
      filter (\<lambda>s. py_mod (real s) (save_interval p) = 0) [1..<nat (steps p) + 1] \<and>
    nat (steps p) \<notin> set (map snapshot_step (files st))"
proof -
  let ?n = "nat (steps p)"
  let ?st0 = "initial_state p phi0"
  have "\<exists>st'. run_loop p [0..<?n] ?st0 = Inr st' \<and> t_index st' = ?n \<and>
      map snapshot_step (files st') = map snapshot_step (files ?st0) @
        filter (\<lambda>s. py_mod (real s) (save_interval p) = 0) [Suc 0..<Suc ?n]"
    using assms(2) by (rule run_loop_upt) (simp_all add: initial_state_def)
  then obtain st where st: "run_loop p [0..<?n] ?st0 = Inr st" "t_index st = ?n"
    "map snapshot_step (files st) =
        filter (\<lambda>s. py_mod (real s) (save_interval p) = 0) [Suc 0..<Suc ?n]"
    by (auto simp: initial_state_def)
  have r: "real ?n = real_of_int (steps p)" using assms(1) by simp
  have e: "[1..<?n + 1] = [Suc 0..<Suc ?n]" by simp
  have f: "map snapshot_step (files st) =
      filter (\<lambda>s. py_mod (real s) (save_interval p) = 0) [1..<?n + 1]"
    by (simp only: e st(3))
  have x: "run p phi0 = Inl (NameError ''Beta'', st)"
    using assms(1,3) by (simp add: run_def st(1))
  have "py_mod (real ?n) (save_interval p) \<noteq> 0"
    using assms(3) by (simp add: r)
  then have m: "?n \<notin> set (map snapshot_step (files st))"
    unfolding st(3) by auto
  from x st(2) f m show ?thesis by blast
qed

theorem run_without_terminal_snapshot_witness:
  "0 < steps sample_params \<and> save_interval sample_params \<noteq> 0 \<and>
   py_mod (real_of_int (steps sample_params)) (save_interval sample_params) \<noteq> 0 \<and>
   (\<exists>st. run sample_params sample_field = Inl (NameError ''Beta'', st) \<and>
      t_index st = 5 \<and> map snapshot_step (files st) = [2, 4] \<and>
      5 \<notin> set (map snapshot_step (files st)))"
proof -
  have a: "0 < steps sample_params" and b: "save_interval sample_params \<noteq> 0"
    and c: "py_mod (real_of_int (steps sample_params)) (save_interval sample_params) \<noteq> 0"
    by (simp_all add: sample_state_facts py_mod_5_2)
  from run_without_terminal_snapshot [OF a b c, of sample_field]
  obtain st where "run sample_params sample_field = Inl (NameError ''Beta'', st)"
    "t_index st = 5" "map snapshot_step (files st) = [2, 4]"
    "5 \<notin> set (map snapshot_step (files st))"
    by (auto simp: sample_state_facts py_mod_upto_5)
  with a b c show ?thesis by (intro conjI exI [of _ st])
qed

section \<open>Rounding to the nearest double\<close>

lemma pow2_less_imp_less:
  assumes "(2 :: real) powi a < 2 powi b"
  shows "a < b"
proof (rule ccontr)
  assume "\<not> a < b"
  then have "b \<le> a" by simp
  then have "(2 :: real) powi b \<le> 2 powi a"
    by (rule power_int_increasing) simp
  with assms show False by simp
qed

lemma expo_search_spec:
  "- 1074 \<le> expo_search n a \<and> expo_search n a \<le> int n - 1074 \<and>
   (expo_search n a \<noteq> - 1074 \<longrightarrow> 2 powi (expo_search n a + 52) \<le> a) \<and>
   (\<forall>k. expo_search n a < k \<and> k \<le> int n - 1074 \<longrightarrow> a < 2 powi (k + 52))"
proof (induction n)
  case 0
  show ?case by simp
next
  case (Suc n)
  show ?case
  proof (cases "2 powi (int (Suc n) - 1074 + 52) \<le> a")
    case True
    then show ?thesis by simp
  next
    case False
    have "a < 2 powi (k + 52)" if "expo_search n a < k" "k \<le> int (Suc n) - 1074" for k
    proof (cases "k = int (Suc n) - 1074")
      case True
      with False show ?thesis by simp
    next
      case False
      with that have "k \<le> int n - 1074" by simp
      with Suc that(1) show ?thesis by blast
    qed
    with False Suc show ?thesis by auto
  qed
qed

lemma f64_exponent_range: "- 1074 \<le> f64_exponent a" "f64_exponent a \<le> 971"
  using expo_search_spec [of 2045 a] by (simp_all add: f64_exponent_def)

lemma f64_exponent_lower:
  "f64_exponent a \<noteq> - 1074 \<Longrightarrow> 2 powi (f64_exponent a + 52) \<le> a"
  using expo_search_spec [of 2045 a] by (simp add: f64_exponent_def)

lemma f64_exponent_upper:
  "f64_exponent a < k \<Longrightarrow> k \<le> 971 \<Longrightarrow> a < 2 powi (k + 52)"
  using expo_search_spec [of 2045 a] by (simp add: f64_exponent_def)

lemma f64_exponent_eqI:
  assumes "- 1074 \<le> e" and "e \<le> 971"
    and "e = - 1074 \<or> 2 powi (e + 52) \<le> a"
    and "a < 2 powi (e + 53)"
  shows "f64_exponent a = e"
proof (rule ccontr)
  assume ne: "f64_exponent a \<noteq> e"
  show False
  proof (cases "f64_exponent a < e")
    case True
    then have lt: "a < 2 powi (e + 52)"
      using assms(2) by (rule f64_exponent_upper)
    with assms(3) have "e = - 1074" by auto
    with True f64_exponent_range(1) [of a] show False by simp
  next
    case False
    with ne have gt: "e < f64_exponent a" by simp
    with assms(1) have "f64_exponent a \<noteq> - 1074" by simp
    then have "2 powi (f64_exponent a + 52) \<le> a" by (rule f64_exponent_lower)
    with assms(4) have "(2 :: real) powi (f64_exponent a + 52) < 2 powi (e + 53)" by simp
    then have "f64_exponent a + 52 < e + 53"
      by (rule pow2_less_imp_less)
    with gt show False by simp
  qed
qed

lemma rne_of_int [simp]: "rne (of_int k) = k"
  by (simp add: rne_def)

lemma rne_shift:
  assumes "0 \<le> t" and "t < 1"
  shows "rne (of_int q + t) =
    (if t < 1 / 2 then q else if 1 / 2 < t then q + 1 else if even q then q else q + 1)"
proof -
  have "\<lfloor>of_int q + t\<rfloor> = q"
    using assms by linarith
  then show ?thesis
    by (simp add: rne_def)
qed

lemma rne_half: "rne (of_int j / 2) = half_even j"
proof -
  have r: "j mod 2 = 0 \<or> j mod 2 = 1" by presburger
  have "real_of_int j = real_of_int (2 * (j div 2) + j mod 2)" by simp
  also have "\<dots> = 2 * of_int (j div 2) + of_int (j mod 2)"
    by (simp only: of_int_add of_int_mult of_int_numeral)
  finally have eq: "(of_int j :: real) / 2 = of_int (j div 2) + of_int (j mod 2) / 2"
    by (simp add: field_simps)
  have "rne (of_int j / 2) = rne (of_int (j div 2) + of_int (j mod 2) / 2)"
    by (simp only: eq)
  also have "\<dots> = half_even j"
    using r by (subst rne_shift) (auto simp: half_even_def even_iff_mod_2_eq_zero)
  finally show ?thesis .
qed

lemma rne_quarter: "rne (of_int j / 4) = quarter_even j"
proof -
  have r: "j mod 4 = 0 \<or> j mod 4 = 1 \<or> j mod 4 = 2 \<or> j mod 4 = 3" by presburger
  have "real_of_int j = real_of_int (4 * (j div 4) + j mod 4)" by simp
  also have "\<dots> = 4 * of_int (j div 4) + of_int (j mod 4)"
    by (simp only: of_int_add of_int_mult of_int_numeral)
  finally have eq: "(of_int j :: real) / 4 = of_int (j div 4) + of_int (j mod 4) / 4"
    by (simp add: field_simps)
  have "rne (of_int j / 4) = rne (of_int (j div 4) + of_int (j mod 4) / 4)"
    by (simp only: eq)
  also have "\<dots> = quarter_even j"
    using r by (subst rne_shift) (auto simp: quarter_even_def)
  finally show ?thesis .
qed

lemma half_even_cases:
  "2 * half_even j = j \<and> even j \<or>
   2 * half_even j = j + 1 \<and> odd j \<and> odd (j div 2) \<or>
   2 * half_even j = j - 1 \<and> odd j \<and> even (j div 2)"
proof (cases "even j")
  case True
  then show ?thesis by (auto simp: half_even_def)
next
  case False
  then have "j = 2 * (j div 2) + 1"
    by (simp add: odd_two_times_div_two_succ)
  then have "2 * (j div 2) = j - 1" by linarith
  with False show ?thesis by (auto simp: half_even_def)
qed

lemma quarter_even_cases:
  "4 * quarter_even j = j \<and> j mod 4 = 0 \<or>
   4 * quarter_even j = j - 1 \<and> j mod 4 = 1 \<or>
   4 * quarter_even j = j + 1 \<and> j mod 4 = 3 \<or>
   4 * quarter_even j = j - 2 \<and> j mod 4 = 2 \<and> even (j div 4) \<or>
   4 * quarter_even j = j + 2 \<and> j mod 4 = 2 \<and> odd (j div 4)"
proof -
  define q r where "q = j div 4" and "r = j mod 4"
  have j: "j = 4 * q + r" by (simp add: q_def r_def)
  have "0 \<le> r" "r < 4" by (simp_all add: r_def)
  then have r: "r = 0 \<or> r = 1 \<or> r = 2 \<or> r = 3" by linarith
  have qe: "quarter_even j =
      (if r = 0 \<or> r = 1 then q else if r = 3 then q + 1 else if even q then q else q + 1)"
    by (simp add: quarter_even_def q_def r_def)
  have "4 * quarter_even j = j \<and> r = 0 \<or>
   4 * quarter_even j = j - 1 \<and> r = 1 \<or>
   4 * quarter_even j = j + 1 \<and> r = 3 \<or>
   4 * quarter_even j = j - 2 \<and> r = 2 \<and> even q \<or>
   4 * quarter_even j = j + 2 \<and> r = 2 \<and> odd q"
    unfolding qe using r j by auto
  then show ?thesis by (simp only: q_def r_def)
qed

lemma half_even_near:
  assumes "d = 0 \<or> d = 1 \<or> d = - 1"
  shows "2 * half_even (4 * m + d) = 4 * m"
proof -
  have a: "(4 * m + 1) div 2 = 2 * m" and b: "(4 * m - 1) div 2 = 2 * m - 1"
    by linarith+
  from assms show ?thesis
    by (elim disjE) (simp_all add: half_even_def a b)
qed

lemma quarter_even_near:
  assumes "d = 0 \<or> d = 1 \<or> d = - 1 \<or> (d = 2 \<or> d = - 2) \<and> even m"
  shows "4 * quarter_even (4 * m + d) = 4 * m"
proof -
  have a: "(4 * m + 1) div 4 = m" "(4 * m + 1) mod 4 = 1"
    and b: "(4 * m - 1) div 4 = m - 1" "(4 * m - 1) mod 4 = 3"
    and c: "(4 * m + 2) div 4 = m" "(4 * m + 2) mod 4 = 2"
    and e: "(4 * m - 2) div 4 = m - 1" "(4 * m - 2) mod 4 = 2"
    by presburger+
  from assms show ?thesis
    by (elim disjE conjE) (simp_all add: quarter_even_def a b c e)
qed

lemma lat_near:
  assumes "\<bar>m\<bar> < 2 ^ 53"
    and "d = 0 \<or> d = 1 \<or> d = - 1 \<or> (d = 2 \<or> d = - 2) \<and> even m \<and> 2 ^ 54 \<le> \<bar>3 * m\<bar>"
    and "d \<noteq> 0 \<longrightarrow> 2 ^ 53 \<le> \<bar>3 * m\<bar>"
  shows "lat (4 * m + d) = 4 * m"
proof -
  consider "\<bar>4 * m + d\<bar> < 2 ^ 53" | "2 ^ 53 \<le> \<bar>4 * m + d\<bar>" "\<bar>4 * m + d\<bar> < 2 ^ 54"
    | "2 ^ 54 \<le> \<bar>4 * m + d\<bar>"
    by linarith
  then show ?thesis
  proof cases
    case 1
    with assms(2,3) have "d = 0" by auto
    with 1 show ?thesis by (simp add: lat_def)
  next
    case 2
    with assms(2) have "d = 0 \<or> d = 1 \<or> d = - 1" by auto
    then have "2 * half_even (4 * m + d) = 4 * m" by (rule half_even_near)
    with 2 show ?thesis by (simp add: lat_def)
  next
    case 3
    from assms(2) have "d = 0 \<or> d = 1 \<or> d = - 1 \<or> (d = 2 \<or> d = - 2) \<and> even m" by auto
    then have "4 * quarter_even (4 * m + d) = 4 * m" by (rule quarter_even_near)
    with 3 show ?thesis by (simp add: lat_def)
  qed
qed

lemma lat_triple:
  assumes "\<bar>m\<bar> < 2 ^ 53"
  shows "lat (lat (3 * m) + m) = 4 * m"
proof -
  consider "\<bar>3 * m\<bar> < 2 ^ 53" | "2 ^ 53 \<le> \<bar>3 * m\<bar>" "\<bar>3 * m\<bar> < 2 ^ 54" | "2 ^ 54 \<le> \<bar>3 * m\<bar>"
    by linarith
  then show ?thesis
  proof cases
    case 1
    then have "lat (3 * m) + m = 4 * m + 0" by (simp add: lat_def)
    moreover have "lat (4 * m + 0) = 4 * m"
      using assms by (rule lat_near) simp_all
    ultimately show ?thesis by simp
  next
    case 2
    from half_even_cases [of "3 * m"]
    obtain d where d: "2 * half_even (3 * m) = 3 * m + d" "d = 0 \<or> d = 1 \<or> d = - 1"
      by auto
    from 2 d(1) have "lat (3 * m) + m = 4 * m + d" by (simp add: lat_def)
    moreover have "lat (4 * m + d) = 4 * m"
      using assms d(2) 2(1) by (intro lat_near) auto
    ultimately show ?thesis by simp
  next
    case 3
    have ev: "even m" if "3 * m mod 4 = 2"
      using that by presburger
    from quarter_even_cases [of "3 * m"]
    obtain d where d: "4 * quarter_even (3 * m) = 3 * m + d"
      "d = 0 \<or> d = 1 \<or> d = - 1 \<or> (d = 2 \<or> d = - 2) \<and> even m"
      using ev by auto
    from 3 d(1) have "lat (3 * m) + m = 4 * m + d" by (simp add: lat_def)
    moreover have "lat (4 * m + d) = 4 * m"
      using assms d(2) 3 by (intro lat_near) auto
    ultimately show ?thesis by simp
  qed
qed

lemma lat_even_small: "\<bar>m\<bar> < 2 ^ 53 \<Longrightarrow> lat (2 * m) = 2 * m"
proof -
  assume m: "\<bar>m\<bar> < 2 ^ 53"
  have h: "2 * half_even (2 * m) = 2 * m"
    by (simp add: half_even_def)
  have b: "\<bar>2 * m\<bar> < 2 ^ 54"
    using m by simp
  show ?thesis
    by (simp only: lat_def h b if_True if_cancel)

qed

lemma lat_mult4: "\<bar>m\<bar> < 2 ^ 53 \<Longrightarrow> lat (4 * m) = 4 * m"
  using lat_near [of m 0] by simp

lemma p_add: "(2 :: real) powi (a + b) = 2 powi a * 2 powi b"
  by (simp add: power_int_add)

lemma p_pos [simp]: "0 < (2 :: real) powi a"
  by simp

lemma p_num: "(2 :: real) powi 53 = 2 ^ 53" "(2 :: real) powi 54 = 2 ^ 54" "(2 :: real) powi 55 = 2 ^ 55"
  "(2 :: real) powi 1024 = 2 ^ 1024" "(2 :: real) powi 1 = 2" "(2 :: real) powi 2 = 4"
  by simp_all

lemma p_nat: "0 \<le> k \<Longrightarrow> (2 :: real) powi k = of_int (2 ^ nat k)"
  by (simp add: power_int_def)

lemma abs_lattice: "\<bar>of_int j * (2 :: real) powi e\<bar> = of_int \<bar>j\<bar> * 2 powi e"
  by (simp add: abs_mult)

lemma round_f64_exponent:
  "f64_exponent \<bar>x\<bar> = e \<Longrightarrow> round_f64 x = of_int (rne (x / 2 powi e)) * 2 powi e"
  by (simp add: round_f64_def)

lemma round_f64_exact:
  assumes e0: "- 1074 \<le> e0" and j: "\<bar>j\<bar> < 2 ^ 53"
  shows "round_f64 (of_int j * 2 powi e0) = of_int j * 2 powi e0"
proof -
  let ?x = "of_int j * (2 :: real) powi e0"
  define E where "E = f64_exponent \<bar>?x\<bar>"
  have le: "E \<le> e0"
  proof (cases "E = - 1074")
    case True
    with e0 show ?thesis by simp
  next
    case False
    then have "2 powi (E + 52) \<le> \<bar>?x\<bar>"
      unfolding E_def by (rule f64_exponent_lower)
    also have "\<bar>?x\<bar> = of_int \<bar>j\<bar> * 2 powi e0" by (rule abs_lattice)
    also have "\<dots> < 2 ^ 53 * 2 powi e0"
    proof -
      have "real_of_int \<bar>j\<bar> < real_of_int (2 ^ 53)"
        using j by (simp only: of_int_less_iff)
      then show ?thesis by simp
    qed
    also have "\<dots> = 2 powi (e0 + 53)"
      by (simp add: p_add)
    finally have "E + 52 < e0 + 53" by (rule pow2_less_imp_less)
    then show ?thesis by simp
  qed
  have "(2 :: real) powi e0 = 2 powi (e0 - E) * 2 powi E"
    by (simp add: p_add [symmetric])
  also have "(2 :: real) powi (e0 - E) = of_int (2 ^ nat (e0 - E))"
    using le by (intro p_nat) simp
  finally have s: "(2 :: real) powi e0 = of_int (2 ^ nat (e0 - E)) * 2 powi E" .
  have "?x / 2 powi E = of_int (j * 2 ^ nat (e0 - E))"
    by (simp add: s)
  then have "rne (?x / 2 powi E) = j * 2 ^ nat (e0 - E)"
    by (simp only: rne_of_int)
  then have "round_f64 ?x = of_int (j * 2 ^ nat (e0 - E)) * 2 powi E"
    by (simp add: round_f64_exponent [OF E_def [symmetric]])
  also have "\<dots> = ?x"
    by (simp add: s)
  finally show ?thesis .
qed

lemma round_f64_shifted:
  assumes e0: "- 1074 \<le> e0" and top: "e0 + int k \<le> 971" and k: "0 < k"
    and lo: "2 ^ (52 + k) \<le> \<bar>j\<bar>" and hi: "\<bar>j\<bar> < 2 ^ (53 + k)"
  shows "round_f64 (of_int j * 2 powi e0) =
    of_int (rne (of_int j / 2 ^ k)) * 2 ^ k * 2 powi e0"
proof -
  let ?x = "of_int j * (2 :: real) powi e0"
  have a: "\<bar>?x\<bar> = of_int \<bar>j\<bar> * 2 powi e0" by (rule abs_lattice)
  have pk: "(2 :: real) powi (e0 + int k) = 2 ^ k * 2 powi e0"
    by (simp add: p_add)
  have l: "2 powi (e0 + int k + 52) \<le> \<bar>?x\<bar>"
  proof -
    have "real_of_int (2 ^ (52 + k)) \<le> real_of_int \<bar>j\<bar>"
      using lo by (simp only: of_int_le_iff)
    then have "2 ^ (52 + k) * 2 powi e0 \<le> of_int \<bar>j\<bar> * (2 :: real) powi e0"
      by simp
    moreover have "(2 :: real) powi (e0 + int k + 52) = 2 ^ (52 + k) * 2 powi e0"
      by (simp add: p_add power_add)
    ultimately show ?thesis by (simp only: a)
  qed
  have u: "\<bar>?x\<bar> < 2 powi (e0 + int k + 53)"
  proof -
    have "real_of_int \<bar>j\<bar> < real_of_int (2 ^ (53 + k))"
      using hi by (simp only: of_int_less_iff)
    then have "of_int \<bar>j\<bar> * (2 :: real) powi e0 < 2 ^ (53 + k) * 2 powi e0"
      by simp
    moreover have "(2 :: real) powi (e0 + int k + 53) = 2 ^ (53 + k) * 2 powi e0"
      by (simp add: p_add power_add)
    ultimately show ?thesis by (simp only: a)
  qed
  have E: "f64_exponent \<bar>?x\<bar> = e0 + int k"
    using e0 top l u by (intro f64_exponent_eqI) simp_all
  have "?x / 2 powi (e0 + int k) = of_int j / 2 ^ k"
    by (simp add: pk)
  then show ?thesis
    by (simp add: round_f64_exponent [OF E] pk)
qed

lemma round_f64_lattice:
  assumes e0: "- 1074 \<le> e0" and j: "\<bar>j\<bar> < 2 ^ 55"
    and b: "2 ^ 53 \<le> \<bar>j\<bar> \<Longrightarrow> e0 \<le> 970" and c: "2 ^ 54 \<le> \<bar>j\<bar> \<Longrightarrow> e0 \<le> 969"
  shows "round_f64 (of_int j * 2 powi e0) = of_int (lat j) * 2 powi e0"
proof -
  consider "\<bar>j\<bar> < 2 ^ 53" | "2 ^ 53 \<le> \<bar>j\<bar>" "\<bar>j\<bar> < 2 ^ 54" | "2 ^ 54 \<le> \<bar>j\<bar>"
    by linarith
  then show ?thesis
  proof cases
    case 1
    then show ?thesis
      using e0 by (simp add: round_f64_exact lat_def)
  next
    case 2
    have "round_f64 (of_int j * 2 powi e0) = of_int (rne (of_int j / 2 ^ 1)) * 2 ^ 1 * 2 powi e0"
      using e0 b [OF 2(1)] 2 by (intro round_f64_shifted) simp_all
    then show ?thesis
      using 2 by (simp add: rne_half lat_def)
  next
    case 3
    have "round_f64 (of_int j * 2 powi e0) = of_int (rne (of_int j / 2 ^ 2)) * 2 ^ 2 * 2 powi e0"
      using e0 c [OF 3] 3 j by (intro round_f64_shifted) simp_all
    then show ?thesis
      using 3 by (simp add: rne_quarter lat_def)
  qed
qed

lemma p_1024_mono:
  assumes "of_int a * (2 :: real) powi e < 2 ^ 1024" and "2 ^ k \<le> a"
  shows "e + int k < 1024"
proof -
  have "real_of_int (2 ^ k) \<le> real_of_int a"
    using assms(2) by (simp only: of_int_le_iff)
  then have "2 ^ k * (2 :: real) powi e \<le> of_int a * 2 powi e"
    by simp
  also note assms(1)
  finally have "(2 :: real) powi (e + int k) < 2 powi 1024"
    by (simp add: p_add mult.commute)
  then show ?thesis by (rule pow2_less_imp_less)
qed

lemma is_double_repr:
  assumes "is_double c"
  obtains m e where "c = of_int m * 2 powi e" and "\<bar>m\<bar> < 2 ^ 53" and "- 1074 \<le> e"
proof -
  define E where "E = f64_exponent \<bar>c\<bar>"
  define m where "m = rne (c / 2 powi E)"
  have c: "c = of_int m * 2 powi E"
    using assms by (simp add: is_double_def round_f64_def E_def m_def Let_def)
  have E: "- 1074 \<le> E" "E \<le> 971"
    unfolding E_def by (rule f64_exponent_range)+
  have "\<bar>c\<bar> < 2 powi (E + 53)"
  proof (cases "E = 971")
    case True
    with assms show ?thesis by (simp add: is_double_def)
  next
    case False
    with E have "E < E + 1" "E + 1 \<le> 971" by simp_all
    then have "\<bar>c\<bar> < 2 powi (E + 1 + 52)"
      unfolding E_def by (rule f64_exponent_upper)
    then show ?thesis by (simp add: add.commute add.left_commute)
  qed
  also have "\<dots> = 2 ^ 53 * 2 powi E" by (simp add: p_add)
  finally have "of_int \<bar>m\<bar> * (2 :: real) powi E < 2 ^ 53 * 2 powi E"
    by (subst (asm) c) (simp only: abs_lattice)
  then have "real_of_int \<bar>m\<bar> < real_of_int (2 ^ 53)" by simp
  then have mm: "\<bar>m\<bar> < 2 ^ 53" by (simp only: of_int_less_iff)
  show ?thesis by (rule that [OF c mm E(1)])
qed

text \<open>In doubles, \<open>((c + c) + c) + c\<close> and \<open>4 * c\<close> are the same double when \<open>4 c\<close> is finite.\<close>

lemma double_sum4:
  assumes d: "is_double c" and b: "4 * \<bar>c\<bar> < 2 ^ 1024"
  shows "round_f64 (c + c) = 2 * c"
    and "round_f64 (round_f64 (round_f64 (c + c) + c) + c) = 4 * c"
    and "round_f64 (4 * c) = 4 * c"
proof -
  from d obtain m e where c: "c = of_int m * 2 powi e" and m: "\<bar>m\<bar> < 2 ^ 53" and e: "- 1074 \<le> e"
    by (rule is_double_repr)
  have b': "of_int (4 * \<bar>m\<bar>) * (2 :: real) powi e < 2 ^ 1024"
    using b by (simp add: c abs_mult)
  have e970: "e \<le> 970" if "2 ^ 51 \<le> \<bar>m\<bar>"
  proof -
    from that have "2 ^ 53 \<le> 4 * \<bar>m\<bar>" by simp
    with b' have "e + int 53 < 1024" by (rule p_1024_mono)
    then show ?thesis by simp
  qed
  have e969: "e \<le> 969" if "2 ^ 52 \<le> \<bar>m\<bar>"
  proof -
    from that have "2 ^ 54 \<le> 4 * \<bar>m\<bar>" by simp
    with b' have "e + int 54 < 1024" by (rule p_1024_mono)
    then show ?thesis by simp
  qed
  have r: "round_f64 (of_int j * 2 powi e) = of_int (lat j) * 2 powi e"
    if "\<bar>j\<bar> \<le> 4 * \<bar>m\<bar> + 2" for j
  proof (rule round_f64_lattice [OF e])
    show "\<bar>j\<bar> < 2 ^ 55" using that m by simp
    show "e \<le> 970" if "2 ^ 53 \<le> \<bar>j\<bar>"
      using that \<open>\<bar>j\<bar> \<le> 4 * \<bar>m\<bar> + 2\<close> by (intro e970) simp
    show "e \<le> 969" if "2 ^ 54 \<le> \<bar>j\<bar>"
      using that \<open>\<bar>j\<bar> \<le> 4 * \<bar>m\<bar> + 2\<close> by (intro e969) simp
  qed
  have c2: "c + c = of_int (2 * m) * 2 powi e" by (simp add: c)
  have r2: "round_f64 (c + c) = of_int (2 * m) * 2 powi e"
    unfolding c2 using m by (subst r) (simp_all add: lat_even_small)
  then show "round_f64 (c + c) = 2 * c" by (simp add: c)
  have c3: "of_int (2 * m) * 2 powi e + c = of_int (3 * m) * 2 powi e" by (simp add: c algebra_simps)
  have r3: "round_f64 (round_f64 (c + c) + c) = of_int (lat (3 * m)) * 2 powi e"
    unfolding r2 c3 by (rule r) simp
  have near: "\<bar>lat (3 * m) - 3 * m\<bar> \<le> 2"
    using half_even_cases [of "3 * m"] quarter_even_cases [of "3 * m"]
    by (auto simp: lat_def)
  have c4: "of_int (lat (3 * m)) * 2 powi e + c = of_int (lat (3 * m) + m) * 2 powi e"
    by (simp add: c algebra_simps)
  have "round_f64 (of_int (lat (3 * m) + m) * 2 powi e) = of_int (lat (lat (3 * m) + m)) * 2 powi e"
    using near by (intro r) linarith
  then show "round_f64 (round_f64 (round_f64 (c + c) + c) + c) = 4 * c"
    unfolding r3 c4 using m by (simp add: lat_triple c)
  have f: "4 * c = of_int (4 * m) * 2 powi e" by (simp add: c)
  have "round_f64 (of_int (4 * m) * 2 powi e) = of_int (lat (4 * m)) * 2 powi e"
    by (rule r) simp
  then show "round_f64 (4 * c) = 4 * c"
    unfolding f using m by (simp only: lat_mult4)
qed

lemma rne_near: "\<bar>of_int (rne q) - q\<bar> \<le> 1 / 2"
proof -
  have "of_int \<lfloor>q\<rfloor> \<le> q" "q < of_int \<lfloor>q\<rfloor> + 1" by linarith+
  then show ?thesis
    by (auto simp: rne_def Let_def)
qed

lemma rne_nonneg: "0 \<le> q \<Longrightarrow> 0 \<le> rne q"
  by (auto simp: rne_def Let_def)

lemma rne_ge: "of_int k \<le> q \<Longrightarrow> k \<le> rne q"
proof -
  assume "of_int k \<le> q"
  then have "k \<le> \<lfloor>q\<rfloor>" by (simp add: le_floor_iff)
  then show ?thesis by (auto simp: rne_def Let_def)
qed

lemma round_f64_0 [simp]: "round_f64 0 = 0"
  using round_f64_exact [of 0 0] by simp

lemma round_f64_1 [simp]: "round_f64 1 = 1"
  using round_f64_exact [of 0 1] by simp

lemma round_f64_nonneg: "0 \<le> x \<Longrightarrow> 0 \<le> round_f64 x"
  by (simp add: round_f64_def Let_def rne_nonneg)

lemma round_f64_finite:
  assumes "\<bar>x\<bar> < overflow_bound"
  shows "\<bar>round_f64 x\<bar> < 2 ^ 1024"
proof -
  define E where "E = f64_exponent \<bar>x\<bar>"
  define q where "q = x / 2 powi E"
  have r: "round_f64 x = of_int (rne q) * 2 powi E"
    unfolding q_def by (rule round_f64_exponent) (simp add: E_def)
  have E: "- 1074 \<le> E" "E \<le> 971"
    unfolding E_def by (rule f64_exponent_range)+
  have aq: "\<bar>q\<bar> = \<bar>x\<bar> / 2 powi E" by (simp add: q_def)
  have n: "\<bar>real_of_int (rne q)\<bar> \<le> \<bar>q\<bar> + 1 / 2"
    using rne_near [of q] by linarith
  show ?thesis
  proof (cases "E = 971")
    case True
    have "\<bar>x\<bar> < (2 ^ 53 - 1 / 2) * 2 ^ 971"
      using assms by (simp add: overflow_bound_def)
    then have "\<bar>q\<bar> < 2 ^ 53 - 1 / 2"
      by (simp add: aq True pos_divide_less_eq)
    with n have "\<bar>real_of_int (rne q)\<bar> < 2 ^ 53" by linarith
    then have "\<bar>real_of_int (rne q)\<bar> * 2 ^ 971 < 2 ^ 53 * 2 ^ 971"
      by (simp only: mult_less_cancel_right_pos zero_less_power zero_less_numeral)
    then show ?thesis
      by (simp add: r True abs_mult)
  next
    case False
    with E have "E < E + 1" "E + 1 \<le> 971" by simp_all
    then have "\<bar>x\<bar> < 2 powi (E + 1 + 52)"
      unfolding E_def by (rule f64_exponent_upper)
    also have "\<dots> = 2 ^ 53 * 2 powi E"
      by (simp add: p_add add.commute add.left_commute)
    finally have "\<bar>q\<bar> < 2 ^ 53"
      by (simp add: aq pos_divide_less_eq)
    with n have "\<bar>real_of_int (rne q)\<bar> < real_of_int (2 ^ 53 + 1)" by simp
    then have "\<bar>rne q\<bar> < 2 ^ 53 + 1"
      by (simp only: of_int_abs [symmetric] of_int_less_iff)
    then have "\<bar>rne q\<bar> \<le> 2 ^ 53" by simp
    then have "real_of_int \<bar>rne q\<bar> \<le> real_of_int (2 ^ 53)"
      by (simp only: of_int_le_iff)
    then have i: "\<bar>real_of_int (rne q)\<bar> \<le> 2 ^ 53" by simp
    have "E \<le> 970" using False E by simp
    then have "(2 :: real) powi E \<le> 2 powi 970"
      by (rule power_int_increasing) simp
    then have p: "(2 :: real) powi E \<le> 2 ^ 970" by simp
    have "\<bar>real_of_int (rne q)\<bar> * 2 powi E \<le> 2 ^ 53 * 2 ^ 970"
      using i p by (intro mult_mono) simp_all
    then show ?thesis
      by (simp add: r abs_mult)
  qed
qed

lemma round_f64_nonzero:
  assumes "underflow_bound < \<bar>x\<bar>"
  shows "round_f64 x \<noteq> 0"
proof -
  define E where "E = f64_exponent \<bar>x\<bar>"
  define q where "q = x / 2 powi E"
  have r: "round_f64 x = of_int (rne q) * 2 powi E"
    unfolding q_def by (rule round_f64_exponent) (simp add: E_def)
  have aq: "\<bar>q\<bar> = \<bar>x\<bar> / 2 powi E" by (simp add: q_def)
  have "1 / 2 < \<bar>q\<bar>"
  proof (cases "E = - 1074")
    case True
    define p :: real where "p = 2 powi (- 1074)"
    have p: "0 < p" by (simp add: p_def)
    have "(2 :: real) powi (- int n) * 2 ^ n = 1" for n
      by (simp add: power_int_minus)
    from this [of 1074] have "p * 2 ^ 1074 = 1"
      by (simp add: p_def)
    then have "p = 1 / 2 ^ 1074"
      by (simp add: field_simps)
    then have "underflow_bound = 1 / 2 * p"
      by (simp add: underflow_bound_def)
    with assms have "1 / 2 * p < \<bar>x\<bar>" by simp
    then have "1 / 2 < \<bar>x\<bar> / p"
      using p by (simp only: pos_less_divide_eq)
    moreover have "\<bar>q\<bar> = \<bar>x\<bar> / p"
      by (simp add: aq True p_def)
    ultimately show ?thesis by simp
  next
    case False
    then have "2 powi (E + 52) \<le> \<bar>x\<bar>"
      unfolding E_def by (rule f64_exponent_lower)
    then have "2 ^ 52 * 2 powi E \<le> \<bar>x\<bar>"
      by (simp add: p_add mult.commute)
    then have "2 ^ 52 \<le> \<bar>q\<bar>"
      by (simp add: aq pos_le_divide_eq)
    then show ?thesis by simp
  qed
  with rne_near [of q] have "rne q \<noteq> 0" by auto
  then show ?thesis by (simp add: r)
qed

lemma f64_exponent_top: "2 ^ 1023 \<le> a \<Longrightarrow> f64_exponent a = 971"
proof -
  assume "2 ^ 1023 \<le> a"
  then have "2 powi (int (Suc 2044) - 1074 + 52) \<le> a" by simp
  then have "expo_search (Suc 2044) a = int (Suc 2044) - 1074"
    by (simp only: expo_search.simps if_True)
  moreover have "(2045 :: nat) = Suc 2044" by simp
  ultimately have "f64_exponent a = int (Suc 2044) - 1074"
    by (simp only: f64_exponent_def)
  then show ?thesis by simp
qed

lemma round_f64_overflow:
  assumes "2 ^ 1024 \<le> x"
  shows "2 ^ 1024 \<le> round_f64 x"
proof -
  have x: "\<bar>x\<bar> = x" using assms by simp
  have "(2 :: real) ^ 1023 \<le> 2 ^ 1024" by simp
  with assms have "2 ^ 1023 \<le> \<bar>x\<bar>" unfolding x by linarith
  then have E: "f64_exponent \<bar>x\<bar> = 971" by (rule f64_exponent_top)
  have "real_of_int (2 ^ 53) \<le> x / 2 powi 971"
    using assms by (simp add: pos_le_divide_eq)
  then have "2 ^ 53 \<le> rne (x / 2 powi 971)" by (rule rne_ge)
  then have "real_of_int (2 ^ 53) \<le> real_of_int (rne (x / 2 powi 971))"
    by (simp only: of_int_le_iff)
  then have "2 ^ 53 * 2 ^ 971 \<le> real_of_int (rne (x / 2 powi 971)) * 2 ^ 971"
    by simp
  then show ?thesis
    by (simp add: round_f64_exponent [OF E])
qed

section \<open>Constant fields on doubles\<close>

lemma rnd_Fin: "\<bar>round_f64 x\<bar> < 2 ^ 1024 \<Longrightarrow> rnd x = Fin (round_f64 x)"
  by (auto simp: rnd_def Let_def)

lemma rnd_0 [simp]: "rnd 0 = Fin 0"
  by (simp add: rnd_Fin)

lemma rnd_1 [simp]: "rnd 1 = Fin 1"
  by (simp add: rnd_Fin)

lemma rnd_double: "is_double x \<Longrightarrow> rnd x = Fin x"
  by (simp add: is_double_def rnd_Fin)

lemma rnd_finite: "\<bar>x\<bar> < overflow_bound \<Longrightarrow> rnd x = Fin (round_f64 x)"
  by (intro rnd_Fin round_f64_finite)

lemma rnd_overflow: "2 ^ 1024 \<le> x \<Longrightarrow> rnd x = PInf"
  using round_f64_overflow [of x] by (simp add: rnd_def Let_def)

lemma is_double_of_int: "\<bar>j\<bar> < 2 ^ 53 \<Longrightarrow> is_double (of_int j)"
proof -
  assume j: "\<bar>j\<bar> < 2 ^ 53"
  then have "real_of_int \<bar>j\<bar> < real_of_int (2 ^ 53)"
    by (simp only: of_int_less_iff)
  then have "\<bar>real_of_int j\<bar> < 2 ^ 1024" by simp
  moreover have "round_f64 (of_int j) = of_int j"
    using round_f64_exact [of 0 j] j by simp
  ultimately show ?thesis by (simp add: is_double_def)
qed

lemma constant_cell_zero:
  assumes c: "is_double c" and b: "4 * \<bar>c\<bar> < 2 ^ 1024"
  shows "fsub (fadd (fadd (fadd (Fin c) (Fin c)) (Fin c)) (Fin c)) (fmul (Fin 4) (Fin c)) = Fin 0"
proof -
  have s2: "round_f64 (c + c) = 2 * c"
    using c b by (rule double_sum4)
  have s4: "round_f64 (round_f64 (2 * c + c) + c) = 4 * c"
    using double_sum4(2) [OF c b] by (simp only: s2)
  have p4: "round_f64 (4 * c) = 4 * c"
    using c b by (rule double_sum4)
  have "\<bar>2 * c\<bar> < 2 ^ 1024" using b by simp
  then have a2: "fadd (Fin c) (Fin c) = Fin (2 * c)"
    using rnd_Fin [of "c + c"] by (simp only: fadd.simps s2)
  have "(3 :: real) * 2 ^ 1022 < overflow_bound"
    by (simp add: overflow_bound_def)
  moreover have "\<bar>2 * c + c\<bar> < 3 * 2 ^ 1022" using b by simp
  ultimately have "\<bar>2 * c + c\<bar> < overflow_bound" by linarith
  then have a3: "fadd (Fin (2 * c)) (Fin c) = Fin (round_f64 (2 * c + c))"
    by (simp only: fadd.simps rnd_finite)
  have b4: "\<bar>4 * c\<bar> < 2 ^ 1024" using b by simp
  then have a4: "fadd (Fin (round_f64 (2 * c + c))) (Fin c) = Fin (4 * c)"
    using rnd_Fin [of "round_f64 (2 * c + c) + c"] by (simp only: fadd.simps s4)
  have m4: "fmul (Fin 4) (Fin c) = Fin (4 * c)"
    using b4 rnd_Fin [of "4 * c"] by (simp only: fmul.simps p4)
  have "fsub (Fin (4 * c)) (Fin (4 * c)) = Fin 0"
    by (simp add: fsub_def)
  then show ?thesis
    by (simp only: a2 a3 a4 m4)
qed

lemma py_pow_2: "py_pow (Fin x) 2 =
    (case rnd (x * x) of
       Fin y \<Rightarrow> Inr (Fin y)
     | PInf \<Rightarrow> Inl OverflowError
     | NInf \<Rightarrow> Inl OverflowError
     | NaN \<Rightarrow> Inr NaN)"
  by (simp add: numeral_2_eq_2)

lemma py_pow_2_keep:
  assumes "underflow_bound < hv * hv" and "hv * hv < overflow_bound"
  shows "py_pow (Fin hv) 2 = Inr (Fin (round_f64 (hv * hv)))" and "round_f64 (hv * hv) \<noteq> 0"
proof -
  have a: "\<bar>hv * hv\<bar> = hv * hv" by simp
  have "rnd (hv * hv) = Fin (round_f64 (hv * hv))"
    using assms(2) by (intro rnd_finite) (simp only: a)
  then show "py_pow (Fin hv) 2 = Inr (Fin (round_f64 (hv * hv)))"
    by (simp add: py_pow_2)
  show "round_f64 (hv * hv) \<noteq> 0"
    using assms(1) by (intro round_f64_nonzero) (simp only: a)
qed

lemma py_pow_1_2: "py_pow (Fin 1) 2 = Inr (Fin 1)"
  by (simp add: py_pow_2)

lemma rotate_replicate: "rotate k (replicate n x) = replicate n x"
proof (induction k)
  case 0
  show ?case by simp
next
  case (Suc k)
  have "rotate1 (replicate n x) = replicate n x"
    by (cases n) (simp_all add: replicate_append_same)
  with Suc show ?case by simp
qed

lemma roll_replicate: "roll s (replicate n x) = replicate n x"
  by (simp add: roll_def rotate_replicate)

lemma roll_axis0_replicate: "roll_axis0 s (replicate R row) = replicate R row"
  by (simp add: roll_axis0_def roll_replicate)

lemma roll_axis1_replicate:
  "roll_axis1 s (replicate R (replicate C x)) = replicate R (replicate C x)"
  by (simp add: roll_axis1_def roll_replicate)

lemma arr_fadd_replicate:
  "arr_fadd (replicate R (replicate C a)) (replicate R (replicate C b)) =
   replicate R (replicate C (fadd a b))"
  by (simp add: arr_fadd_def)

lemma arr_fsub_replicate:
  "arr_fsub (replicate R (replicate C a)) (replicate R (replicate C b)) =
   replicate R (replicate C (fsub a b))"
  by (simp add: arr_fsub_def)

lemma arr_fscale_replicate:
  "arr_fscale c (replicate R (replicate C a)) = replicate R (replicate C (fmul c a))"
  by (simp add: arr_fscale_def)

lemma arr_fdiv_replicate:
  "arr_fdiv (replicate R (replicate C a)) d = replicate R (replicate C (fdiv a d))"
  by (simp add: arr_fdiv_def)

lemma arr_fpow_replicate:
  "arr_fpow (replicate R (replicate C a)) n = replicate R (replicate C (fpow a n))"
  by (simp add: arr_fpow_def)

lemma laplacian_f64_replicate:
  "laplacian_f64 (replicate R (replicate C x)) hh =
     (case py_pow hh 2 of
        Inl e \<Rightarrow> Inl e
      | Inr h2 \<Rightarrow> Inr (replicate R (replicate C
          (fdiv (fsub (fadd (fadd (fadd x x) x) x) (fmul (Fin 4) x)) h2))))"
  by (simp add: laplacian_f64_def Let_def roll_axis0_replicate roll_axis1_replicate
      arr_fadd_replicate arr_fsub_replicate arr_fscale_replicate arr_fdiv_replicate
      split: sum.splits)

lemma count_true_f64_replicate:
  "count_true_f64 P (replicate R (replicate C c)) = (if P c then R * C else 0)"
  by (simp add: count_true_f64_def sum_list_replicate)

lemma laplacian_f64_const:
  assumes "is_double c" and "4 * \<bar>c\<bar> < 2 ^ 1024"
    and "underflow_bound < hv * hv" and "hv * hv < overflow_bound"
  shows "laplacian_f64 (replicate R (replicate C (Fin c))) (Fin hv) =
    Inr (replicate R (replicate C (Fin 0)))"
proof -
  let ?h2 = "round_f64 (hv * hv)"
  have nz: "?h2 \<noteq> 0"
    using assms(3,4) by (rule py_pow_2_keep)
  have "fdiv (fsub (fadd (fadd (fadd (Fin c) (Fin c)) (Fin c)) (Fin c)) (fmul (Fin 4) (Fin c)))
      (Fin ?h2) = fdiv (Fin 0) (Fin ?h2)"
    by (simp only: constant_cell_zero [OF assms(1,2)])
  also have "\<dots> = Fin 0"
    using nz by simp
  finally show ?thesis
    by (simp only: laplacian_f64_replicate py_pow_2_keep(1) [OF assms(3,4)] sum.case)
qed

lemma two_1023_inf: "rnd (2 * two_1023) = PInf" "rnd (4 * two_1023) = PInf"
  by (rule rnd_overflow, simp add: two_1023_def)+

lemma nan_cell:
  "fdiv (fsub (fadd (fadd (fadd (Fin two_1023) (Fin two_1023)) (Fin two_1023)) (Fin two_1023))
      (fmul (Fin 4) (Fin two_1023))) (Fin 1) = NaN"
  by (simp add: two_1023_inf fsub_def)

text \<open>
  C8. On doubles, for every grid size \<open>n \<ge> 1\<close>, every double \<open>c\<close> with \<open>4 \<bar>c\<bar> < 2^1024\<close> (so
  that \<open>4 c\<close> is finite), and every spacing \<open>hv > 0\<close> whose square does not round to zero
  and does not overflow, the Laplacian of the field that is \<open>c\<close> in every cell is zero
  in every cell.
\<close>

theorem laplacian_f64_constant_field:
  assumes "1 \<le> n" and "is_double c" and "4 * \<bar>c\<bar> < 2 ^ 1024"
    and "0 < hv" and "underflow_bound < hv * hv" and "hv * hv < overflow_bound"
  shows "laplacian_f64 (replicate n (replicate n (Fin c))) (Fin hv) =
    Inr (replicate n (replicate n (Fin 0)))"
  using assms(2,3,5,6) by (rule laplacian_f64_const)

theorem laplacian_f64_constant_field_witness:
  "(1 :: nat) \<le> 2 \<and> is_double 7 \<and> 4 * \<bar>7 :: real\<bar> < 2 ^ 1024 \<and> (0 :: real) < 3 \<and>
   underflow_bound < 3 * 3 \<and> 3 * 3 < overflow_bound \<and>
   laplacian_f64 [[Fin 7, Fin 7], [Fin 7, Fin 7]] (Fin 3) = Inr [[Fin 0, Fin 0], [Fin 0, Fin 0]]"
proof -
  have a: "(1 :: nat) \<le> 2" and d: "(0 :: real) < 3" by simp_all
  have b: "is_double 7" using is_double_of_int [of 7] by simp
  have c: "4 * \<bar>7 :: real\<bar> < 2 ^ 1024" by simp
  have e: "underflow_bound < 3 * 3" and f: "3 * 3 < overflow_bound"
    by (simp_all add: overflow_bound_def underflow_bound_def)
  have r: "replicate 2 (replicate 2 x) = [[x, x], [x, x]]" for x :: f64
    by (simp add: numeral_2_eq_2)
  from laplacian_f64_constant_field [OF a b c d e f]
  have "laplacian_f64 [[Fin 7, Fin 7], [Fin 7, Fin 7]] (Fin 3) = Inr [[Fin 0, Fin 0], [Fin 0, Fin 0]]"
    by (simp only: r)
  with a b c d e f show ?thesis by (intro conjI)
qed

text \<open>
  For the constant \<open>2.0 ** 1023\<close> and spacing 1 the sum of the neighbours and \<open>4 u\<close> both
  overflow to infinity, and their difference is nan in every cell.
\<close>

theorem laplacian_f64_constant_field_counterexample:
  "laplacian_f64 [[Fin two_1023, Fin two_1023], [Fin two_1023, Fin two_1023]] (Fin 1) =
     Inr [[NaN, NaN], [NaN, NaN]]"
proof -
  have r: "replicate 2 (replicate 2 x) = [[x, x], [x, x]]" for x :: f64
    by (simp add: numeral_2_eq_2)
  have "laplacian_f64 (replicate 2 (replicate 2 (Fin two_1023))) (Fin 1) =
      Inr (replicate 2 (replicate 2 NaN))"
    by (simp only: laplacian_f64_replicate py_pow_1_2 sum.case nan_cell)
  then show ?thesis by (simp only: r)
qed

text \<open>
  C10. On doubles, for a \<open>1 \<times> 1\<close> field whose entry is a double \<open>c\<close> with \<open>4 \<bar>c\<bar> < 2^1024\<close>,
  and every spacing \<open>hv > 0\<close> whose square does not round to zero and does not overflow,
  the Laplacian is zero: every neighbour index wraps to the cell itself.
\<close>

theorem laplacian_f64_single_cell:
  assumes "is_double c" and "4 * \<bar>c\<bar> < 2 ^ 1024"
    and "0 < hv" and "underflow_bound < hv * hv" and "hv * hv < overflow_bound"
  shows "laplacian_f64 [[Fin c]] (Fin hv) = Inr [[Fin 0]]"
proof -
  have "laplacian_f64 (replicate 1 (replicate 1 (Fin c))) (Fin hv) =
      Inr (replicate 1 (replicate 1 (Fin 0)))"
    using assms(1,2,4,5) by (rule laplacian_f64_const)
  then show ?thesis by simp
qed

theorem laplacian_f64_single_cell_witness:
  "is_double 5 \<and> 4 * \<bar>5 :: real\<bar> < 2 ^ 1024 \<and> (0 :: real) < 2 \<and>
   underflow_bound < 2 * 2 \<and> 2 * 2 < overflow_bound \<and>
   laplacian_f64 [[Fin 5]] (Fin 2) = Inr [[Fin 0]]"
proof -
  have d: "(0 :: real) < 2" by simp
  have b: "is_double 5" using is_double_of_int [of 5] by simp
  have c: "4 * \<bar>5 :: real\<bar> < 2 ^ 1024" by simp
  have e: "underflow_bound < 2 * 2" and f: "2 * 2 < overflow_bound"
    by (simp_all add: overflow_bound_def underflow_bound_def)
  from b c d e f laplacian_f64_single_cell [OF b c d e f] show ?thesis by (intro conjI)
qed

text \<open>
  On the \<open>1 \<times> 1\<close> field holding \<open>2.0 ** 1023\<close>, with spacing 1, every neighbour is the cell
  itself; the sum overflows to infinity, as does \<open>4 u\<close>, and the result is nan.
\<close>

theorem laplacian_f64_single_cell_counterexample:
  "laplacian_f64 [[Fin two_1023]] (Fin 1) = Inr [[NaN]]"
proof -
  have "laplacian_f64 (replicate 1 (replicate 1 (Fin two_1023))) (Fin 1) =
      Inr (replicate 1 (replicate 1 NaN))"
    by (simp only: laplacian_f64_replicate py_pow_1_2 sum.case nan_cell)
  then show ?thesis by simp
qed

lemma fmul_Fin_0 [simp]: "fmul (Fin x) (Fin 0) = Fin 0"
  by simp

lemma laplacian_f64_zero:
  "laplacian_f64 (replicate R (replicate C (Fin 0))) (Fin 1) = Inr (replicate R (replicate C (Fin 0)))"
  by (simp add: laplacian_f64_replicate py_pow_1_2 fsub_def)

lemma dfdphi_f64_zero:
  "dfdphi_f64 a (replicate R (replicate C (Fin 0))) = replicate R (replicate C (Fin 0))"
  by (simp add: dfdphi_f64_def arr_fscale_replicate arr_fadd_replicate arr_fsub_replicate
      arr_fpow_replicate fsub_def numeral_2_eq_2 numeral_3_eq_3)

lemma step_phi_f64_zero:
  assumes "2 * \<bar>k\<bar> < overflow_bound"
  shows "step_phi_f64 a k m dt 1 (replicate R (replicate C (Fin 0))) =
    Inr (replicate R (replicate C (Fin 0)))"
proof -
  have "rnd (2 * k) = Fin (round_f64 (2 * k))"
    using assms by (intro rnd_finite) (simp add: abs_mult)
  then have "fmul (rnd (2 * k)) (Fin 0) = Fin 0"
    by simp
  then show ?thesis
    by (simp add: step_phi_f64_def Let_def dfdphi_f64_zero laplacian_f64_zero
        arr_fscale_replicate arr_fsub_replicate arr_fadd_replicate fsub_def)
qed

lemma thresholds_at_zero:
  "\<not> above_upper_f64 (Fin 0)" "\<not> between_thresholds_f64 (Fin 0)"
  using round_f64_nonneg [of "7 / 10"] round_f64_nonneg [of "3 / 10"]
  by (simp_all add: above_upper_f64_def between_thresholds_f64_def)

text \<open>
  C9. On doubles, on the \<open>4 \<times> 4\<close> grid with spacing 1 and the all-zero field, for any
  finite \<open>A\<close>, \<open>M\<close> and \<open>dT\<close> and any finite \<open>K\<close> with \<open>2 \<bar>K\<bar>\<close> below the overflow bound
  \<open>2^1024 - 2^970\<close>, one step leaves the field all-zero and stores volume fraction 0 and
  interfacial count 0 for that step.
\<close>

theorem zero_field_is_fixed_point_f64:
  assumes "N p = 4" and "h p = 1" and "2 * \<bar>K p\<bar> < overflow_bound"
    and "phi64 st = replicate 4 (replicate 4 (Fin 0))"
    and "t_index64 st < length (volume_fraction64 st)"
    and "t_index64 st < length (interfacial_area64 st)"
    and "save_interval p \<noteq> 0"
  shows "\<exists>st'. loop_body_f64 p step st = Inr st' \<and>
    phi64 st' = replicate 4 (replicate 4 (Fin 0)) \<and>
    t_index64 st' = t_index64 st + 1 \<and>
    volume_fraction64 st' ! t_index64 st = Fin 0 \<and>
    interfacial_area64 st' ! t_index64 st = Fin 0"
  using assms(5,6,7)
  by (simp add: loop_body_f64_def Let_def assms(1,2,4) step_phi_f64_zero [OF assms(3)]
      count_true_f64_replicate thresholds_at_zero)

theorem zero_field_is_fixed_point_f64_witness:
  "N (sample_params\<lparr>N := 4\<rparr>) = 4 \<and> h (sample_params\<lparr>N := 4\<rparr>) = 1 \<and>
   2 * \<bar>K (sample_params\<lparr>N := 4\<rparr>)\<bar> < overflow_bound \<and>
   (\<exists>st'. loop_body_f64 (sample_params\<lparr>N := 4\<rparr>) 0
       (initial_state_f64 sample_params
          [[Fin 0, Fin 0, Fin 0, Fin 0], [Fin 0, Fin 0, Fin 0, Fin 0],
           [Fin 0, Fin 0, Fin 0, Fin 0], [Fin 0, Fin 0, Fin 0, Fin 0]]) = Inr st' \<and>
     phi64 st' = [[Fin 0, Fin 0, Fin 0, Fin 0], [Fin 0, Fin 0, Fin 0, Fin 0],
                  [Fin 0, Fin 0, Fin 0, Fin 0], [Fin 0, Fin 0, Fin 0, Fin 0]] \<and>
     t_index64 st' = 1 \<and>
     volume_fraction64 st' ! 0 = Fin 0 \<and>
     interfacial_area64 st' ! 0 = Fin 0)"
proof -
  let ?p = "sample_params\<lparr>N := 4\<rparr>"
  let ?z = "[[Fin 0, Fin 0, Fin 0, Fin 0], [Fin 0, Fin 0, Fin 0, Fin 0],
            [Fin 0, Fin 0, Fin 0, Fin 0], [Fin 0, Fin 0, Fin 0, Fin 0]]"
  let ?st = "initial_state_f64 sample_params ?z"
  have z: "replicate 4 (replicate 4 (Fin 0)) = ?z"
    by (simp add: numeral_Bit0 numeral_2_eq_2)
  have a: "N ?p = 4" and b: "h ?p = 1" and f: "save_interval ?p \<noteq> 0"
    by (simp_all add: sample_params_def)
  have k: "2 * \<bar>K ?p\<bar> < overflow_bound"
    by (simp add: sample_params_def overflow_bound_def)
  have c: "phi64 ?st = replicate 4 (replicate 4 (Fin 0))"
    by (simp only: z) (simp add: initial_state_f64_def)
  have d: "t_index64 ?st < length (volume_fraction64 ?st)"
    and e: "t_index64 ?st < length (interfacial_area64 ?st)"
    by (simp_all add: initial_state_f64_def sample_params_def)
  have t0: "t_index64 ?st = 0" by (simp add: initial_state_f64_def)
  from zero_field_is_fixed_point_f64 [OF a b k c d e f, of 0]
  obtain st' where "loop_body_f64 ?p 0 ?st = Inr st'" "phi64 st' = ?z" "t_index64 st' = 1"
    "volume_fraction64 st' ! 0 = Fin 0" "interfacial_area64 st' ! 0 = Fin 0"
    unfolding z t0 by auto
  with a b k show ?thesis by blast
qed

text \<open>
  With \<open>K = 2.0 ** 1023\<close> the product \<open>2 * K\<close> overflows to infinity, infinity times the
  zero Laplacian is nan, and one step turns the all-zero \<open>4 \<times> 4\<close> field into nan in every
  cell.
\<close>

theorem zero_field_is_fixed_point_f64_counterexample:
  "loop_body_f64 overflow_params 0
     (initial_state_f64 overflow_params
        [[Fin 0, Fin 0, Fin 0, Fin 0], [Fin 0, Fin 0, Fin 0, Fin 0],
         [Fin 0, Fin 0, Fin 0, Fin 0], [Fin 0, Fin 0, Fin 0, Fin 0]]) =
   Inr \<lparr>phi64 = [[NaN, NaN, NaN, NaN], [NaN, NaN, NaN, NaN],
                 [NaN, NaN, NaN, NaN], [NaN, NaN, NaN, NaN]],
        t_index64 = 1,
        volume_fraction64 = [Fin 0, Fin 0, Fin 0, Fin 0, Fin 0],
        interfacial_area64 = [Fin 0, Fin 0, Fin 0, Fin 0, Fin 0],
        files64 = []\<rparr>"
proof -
  let ?z = "[[Fin 0, Fin 0, Fin 0, Fin 0], [Fin 0, Fin 0, Fin 0, Fin 0],
            [Fin 0, Fin 0, Fin 0, Fin 0], [Fin 0, Fin 0, Fin 0, Fin 0]]"
  let ?n = "[[NaN, NaN, NaN, NaN], [NaN, NaN, NaN, NaN],
            [NaN, NaN, NaN, NaN], [NaN, NaN, NaN, NaN]]"
  have z: "replicate 4 (replicate 4 x) = [[x, x, x, x], [x, x, x, x], [x, x, x, x], [x, x, x, x]]"
    for x :: f64
    by (simp add: numeral_Bit0 numeral_2_eq_2)
  have lap_nan: "laplacian_f64 (replicate 4 (replicate 4 NaN)) (Fin 1) =
      Inr (replicate 4 (replicate 4 NaN))"
    by (simp add: laplacian_f64_replicate py_pow_1_2 fsub_def)
  have "step_phi_f64 1 two_1023 1 1 1 (replicate 4 (replicate 4 (Fin 0))) =
      Inr (replicate 4 (replicate 4 NaN))"
    by (simp add: step_phi_f64_def Let_def dfdphi_f64_zero laplacian_f64_zero two_1023_inf
        lap_nan arr_fscale_replicate arr_fsub_replicate arr_fadd_replicate fsub_def
        inf_times_def)
  then have s: "step_phi_f64 1 two_1023 1 1 1 ?z = Inr ?n"
    by (simp only: z)
  have m: "py_mod 1 2 \<noteq> 0"
  proof -
    have "\<lfloor>1 / 2 :: real\<rfloor> = 0" by linarith
    then show ?thesis by (simp add: py_mod_def)
  qed
  have r: "replicate 5 (Fin 0) = [Fin 0, Fin 0, Fin 0, Fin 0, Fin 0]"
    by (simp add: eval_nat_numeral)
  have t: "\<not> above_upper_f64 NaN" "\<not> between_thresholds_f64 NaN"
    by (simp_all add: above_upper_f64_def between_thresholds_f64_def)
  have c: "count_true_f64 above_upper_f64 ?n = 0" "count_true_f64 between_thresholds_f64 ?n = 0"
    using t by (simp_all add: count_true_f64_def)
  show ?thesis
    using m
    by (simp add: loop_body_f64_def Let_def overflow_params_def initial_state_f64_def s r c)
qed

end
